theory Spec2Isabelle
  imports Main "HOL-Library.Multiset"
begin

section \<open>The execution log of the NeuroGames project\<close>

text \<open>
  The repository holds the execution log twice: \<^verbatim>\<open>src/logger.py\<close> (the module
  \<^verbatim>\<open>main.py\<close> and \<^verbatim>\<open>pdf_generator.py\<close> import) and the older \<^verbatim>\<open>log.py\<close> (imported
  by \<^verbatim>\<open>pdf.py\<close>). Both number the runs of a program, insert one line per run below
  the header of the primary log file, and read all known log files back.

  Python strings are modelled as \<^typ>\<open>string\<close>: a character is a code point below 256.
  The text of a file is what Python's text layer hands to the program, so a line ends
  with the line feed; written fields are kept free of carriage returns where a theorem
  depends on the lines of the file that was written.
\<close>

subsection \<open>Python's string operations\<close>

abbreviation TAB :: char where "TAB \<equiv> CHR 0x09"
abbreviation NL :: char where "NL \<equiv> CHR 0x0A"
abbreviation CR :: char where "CR \<equiv> CHR 0x0D"

text \<open>\<^verbatim>\<open>str.isspace\<close> on the code points below 256: this is what \<^verbatim>\<open>str.strip()\<close> removes.\<close>

definition isspace :: "char \<Rightarrow> bool" where
  "isspace c \<longleftrightarrow> c \<in> {CHR 0x09, CHR 0x0A, CHR 0x0B, CHR 0x0C, CHR 0x0D,
     CHR 0x1C, CHR 0x1D, CHR 0x1E, CHR 0x1F, CHR 0x20, CHR 0x85, CHR 0xA0}"

definition strip :: "string \<Rightarrow> string" where
  "strip s = rev (dropWhile isspace (rev (dropWhile isspace s)))"

definition startswith :: "string \<Rightarrow> string \<Rightarrow> bool" where
  "startswith s p \<longleftrightarrow> take (length p) s = p"

text \<open>\<^verbatim>\<open>s.split(sep)\<close> for a separator of one character: never the empty list.\<close>

fun str_split :: "char \<Rightarrow> string \<Rightarrow> string list" where
  "str_split sep [] = [[]]"
| "str_split sep (c # cs) =
     (if c = sep then [] # str_split sep cs
      else case str_split sep cs of [] \<Rightarrow> [[c]] | f # fs \<Rightarrow> (c # f) # fs)"

text \<open>
  \<^verbatim>\<open>f.readlines()\<close>: the text cut after every line feed, the line feeds kept. A
  character that is no line feed joins the first line of what follows it, or is the
  last line by itself when nothing follows.
\<close>

fun readlines :: "string \<Rightarrow> string list" where
  "readlines [] = []"
| "readlines (c # cs) =
     (if c = NL then [NL] # readlines cs
      else case readlines cs of [] \<Rightarrow> [[c]] | l # ls \<Rightarrow> (c # l) # ls)"

text \<open>\<^verbatim>\<open>os.path.basename\<close> of \<^verbatim>\<open>posixpath\<close>: what follows the last slash.\<close>

definition basename :: "string \<Rightarrow> string" where
  "basename p = rev (takeWhile (\<lambda>c. c \<noteq> CHR ''/'') (rev p))"

subsection \<open>Exceptions, \<^verbatim>\<open>int()\<close> and \<^verbatim>\<open>str()\<close>\<close>

datatype exn = ValueError | AttributeError | OSError

text \<open>
  \<^verbatim>\<open>int(s)\<close> in base ten: white space, an optional sign, digits that single underscores
  may separate, white space. The white space \<^verbatim>\<open>int\<close> skips is smaller than what
  \<^verbatim>\<open>strip\<close> removes: the separators \<^verbatim>\<open>0x1C\<close> to \<^verbatim>\<open>0x1F\<close> are no white space for it.
  Anything else raises \<^verbatim>\<open>ValueError\<close>. (The interpreter's limit on the number of digits,
  4300 by default since Python 3.11, is not modelled.)
\<close>

definition int_space :: "char \<Rightarrow> bool" where
  "int_space c \<longleftrightarrow> c \<in> {CHR 0x09, CHR 0x0A, CHR 0x0B, CHR 0x0C, CHR 0x0D,
     CHR 0x20, CHR 0x85, CHR 0xA0}"

definition is_digit :: "char \<Rightarrow> bool" where
  "is_digit c \<longleftrightarrow> c \<in> set ''0123456789''"

definition digit_value :: "char \<Rightarrow> int" where
  "digit_value c = int (of_char c) - 48"

fun body_ok :: "string \<Rightarrow> bool" where
  "body_ok [] = False"
| "body_ok [c] = is_digit c"
| "body_ok (c # d # cs) =
     (is_digit c \<and> (if d = CHR ''_'' then body_ok cs else body_ok (d # cs)))"

definition digits_value :: "string \<Rightarrow> int" where
  "digits_value b = foldl (\<lambda>a c. 10 * a + digit_value c) 0 (filter is_digit b)"

definition int_py :: "string \<Rightarrow> exn + int" where
  "int_py s =
     (let t = dropWhile int_space s;
          neg = (t \<noteq> [] \<and> hd t = CHR ''-'');
          u = (if t \<noteq> [] \<and> (hd t = CHR ''-'' \<or> hd t = CHR ''+'') then tl t else t);
          body = takeWhile (\<lambda>c. is_digit c \<or> c = CHR ''_'') u;
          rest = dropWhile (\<lambda>c. is_digit c \<or> c = CHR ''_'') u
      in if body_ok body \<and> list_all int_space rest
         then Inr ((if neg then - 1 else 1) * digits_value body)
         else Inl ValueError)"

text \<open>\<^verbatim>\<open>str(n)\<close>, as the f-strings of \<^verbatim>\<open>log_execution\<close> format the call number.\<close>

definition digit_char :: "nat \<Rightarrow> char" where
  "digit_char d = ''0123456789'' ! d"

function str_nat :: "nat \<Rightarrow> string" where
  "str_nat n = (if n < 10 then [digit_char n] else str_nat (n div 10) @ [digit_char (n mod 10)])"
  by pat_completeness auto
termination
  by (relation "measure id") auto

declare str_nat.simps [simp del]

definition str_int :: "int \<Rightarrow> string" where
  "str_int i = (if i < 0 then CHR ''-'' # str_nat (nat (- i)) else str_nat (nat i))"

subsection \<open>The clock\<close>

text \<open>
  \<^verbatim>\<open>datetime.datetime.now()\<close> and the two \<^verbatim>\<open>strftime\<close> calls of \<^verbatim>\<open>log_execution\<close>:
  \<^verbatim>\<open>"%Y-%m-%d"\<close> and \<^verbatim>\<open>"%H:%M:%S"\<close>, every number padded with zeros.
\<close>

record datetime =
  year :: nat
  month :: nat
  day :: nat
  hour :: nat
  minute :: nat
  second :: nat

definition zfill :: "nat \<Rightarrow> string \<Rightarrow> string" where
  "zfill w s = replicate (w - length s) CHR ''0'' @ s"

definition strftime_date :: "datetime \<Rightarrow> string" where
  "strftime_date d = zfill 4 (str_nat (year d)) @ ''-'' @ zfill 2 (str_nat (month d))
     @ ''-'' @ zfill 2 (str_nat (day d))"

definition strftime_time :: "datetime \<Rightarrow> string" where
  "strftime_time d = zfill 2 (str_nat (hour d)) @ '':'' @ zfill 2 (str_nat (minute d))
     @ '':'' @ zfill 2 (str_nat (second d))"

subsection \<open>Files\<close>

text \<open>
  A path of the file system is absent (and then can be created or not: the directory
  may be missing and \<^verbatim>\<open>os.makedirs\<close> may fail) or present, readable or not, writable or
  not, with its text. Opening fails before anything is read or truncated.
\<close>

type_synonym path = string

datatype node =
    Absent (creatable: bool)
  | Present (readable: bool) (writable: bool) (content: string)

type_synonym filesystem = "path \<Rightarrow> node"

definition path_exists :: "filesystem \<Rightarrow> path \<Rightarrow> bool" where
  "path_exists fs p = (case fs p of Absent c \<Rightarrow> False | Present r w t \<Rightarrow> True)"

text \<open>\<^verbatim>\<open>with open(p, 'r', encoding='utf-8') as f: lines = f.readlines()\<close>\<close>

definition open_readlines :: "filesystem \<Rightarrow> path \<Rightarrow> exn + string list" where
  "open_readlines fs p =
     (case fs p of
        Absent c \<Rightarrow> Inl OSError
      | Present r w t \<Rightarrow> if r then Inr (readlines t) else Inl OSError)"

text \<open>\<^verbatim>\<open>with open(p, 'w', encoding='utf-8') as f: f.write(s)\<close>\<close>

definition open_write :: "filesystem \<Rightarrow> path \<Rightarrow> string \<Rightarrow> exn + filesystem" where
  "open_write fs p s =
     (case fs p of
        Absent c \<Rightarrow> if c then Inr (fs(p := Present True True s)) else Inl OSError
      | Present r w t \<Rightarrow> if w then Inr (fs(p := Present r w s)) else Inl OSError)"

subsection \<open>The constants of the two modules\<close>

record module =
  LOG_FILE :: path
  LOG_FILES :: "path list"
  HEADER :: "string list"
  UNKNOWN :: string

text \<open>
  \<^verbatim>\<open>src/logger.py\<close>: \<^verbatim>\<open>LOG_FILE\<close>, \<^verbatim>\<open>LEGACY_LOG_FILES\<close> (the list every scan walks; its
  last element is the primary file), the three lines of \<^verbatim>\<open>create_log_file_header\<close>
  and the name \<^verbatim>\<open>get_caller_info\<close> gives an unknown caller.
\<close>

definition logger_py :: module where
  "logger_py = \<lparr>
     LOG_FILE = ''logs/program_log.txt'',
     LOG_FILES = [''program_log.txt'', ''sub/program_log.txt'', ''logs/program_log.txt''],
     HEADER = [''# NeuroGames Project - Program Execution Log'' @ [NL],
       ''# CallNumber'' @ [TAB] @ ''Date'' @ [TAB] @ ''Time'' @ [TAB] @ ''FileName''
         @ [TAB] @ ''FullPath'' @ [NL],
       ''#'' @ replicate 80 CHR ''='' @ [NL]],
     UNKNOWN = ''Unknown'' \<rparr>"

text \<open>
  \<^verbatim>\<open>log.py\<close>: \<^verbatim>\<open>LOG_FILE\<close>, the list \<^verbatim>\<open>possible_log_files\<close> of its scans (the same path
  twice at the end), the lines of \<^verbatim>\<open>create_log_file_with_header\<close> and its name for an
  unknown caller.
\<close>

definition log_py :: module where
  "log_py = \<lparr>
     LOG_FILE = ''program_log.txt'',
     LOG_FILES = [''program_log.txt'', ''sub/program_log.txt'', ''sub/program_log.txt''],
     HEADER = [''# NeuroGames Program Execution Log'' @ [NL],
       ''# Aufrufnummer'' @ [TAB] @ ''Datum'' @ [TAB] @ ''Zeit'' @ [TAB] @ ''Dateiname''
         @ [TAB] @ ''Dateipfad'' @ [NL],
       ''#'' @ replicate 80 CHR ''='' @ [NL]],
     UNKNOWN = ''Unbekannt'' \<rparr>"

subsection \<open>Numbering: \<^verbatim>\<open>get_next_call_number\<close>\<close>

text \<open>
  One pass of the inner loop over a line. The only handler around \<^verbatim>\<open>int\<close> is
  \<^verbatim>\<open>except ValueError: continue\<close>: any other exception leaves the loop, so the step
  returns the maximum so far and the exception that escapes, if any.
\<close>

definition number_line :: "int \<Rightarrow> string \<Rightarrow> int \<times> exn option" where
  "number_line max_number line =
     (if strip line = [] \<or> startswith line ''#'' then (max_number, None)
      else let parts = str_split TAB line in
        if length parts \<ge> 1 then
          (case int_py (parts ! 0) of
             Inr number \<Rightarrow> (max max_number number, None)
           | Inl ValueError \<Rightarrow> (max_number, None)
           | Inl e \<Rightarrow> (max_number, Some e))
        else (max_number, None))"

fun number_lines :: "int \<Rightarrow> string list \<Rightarrow> int \<times> exn option" where
  "number_lines max_number [] = (max_number, None)"
| "number_lines max_number (line # lines) =
     (case number_line max_number line of
        (m, None) \<Rightarrow> number_lines m lines
      | (m, Some e) \<Rightarrow> (m, Some e))"

text \<open>
  One pass of the outer loop over a path: a missing file is skipped, and
  \<^verbatim>\<open>except Exception: continue\<close> swallows whatever opening, reading or the inner loop
  raises, keeping the maximum reached.
\<close>

definition number_file :: "filesystem \<Rightarrow> int \<Rightarrow> path \<Rightarrow> int" where
  "number_file fs max_number log_file =
     (if \<not> path_exists fs log_file then max_number
      else case open_readlines fs log_file of
             Inl e \<Rightarrow> max_number
           | Inr lines \<Rightarrow> fst (number_lines max_number lines))"

definition get_next_call_number :: "module \<Rightarrow> filesystem \<Rightarrow> int" where
  "get_next_call_number m fs = foldl (number_file fs) 0 (LOG_FILES m) + 1"

subsection \<open>Reading: \<^verbatim>\<open>read_log\<close>\<close>

text \<open>
  The dictionaries \<^verbatim>\<open>get_log_stats\<close> collects have four keys; those of \<^verbatim>\<open>read_log\<close>
  have \<^verbatim>\<open>filepath\<close> as a fifth.
\<close>

record stat_entry =
  number :: int
  date :: string
  time :: string
  filename :: string

record entry = stat_entry +
  filepath :: string

type_synonym entry_key = "int \<times> string \<times> string \<times> string"

definition key_of :: "'a stat_entry_scheme \<Rightarrow> entry_key" where
  "key_of e = (number e, date e, time e, filename e)"

text \<open>
  One pass of the inner loop of \<^verbatim>\<open>read_log\<close> over a line, on the pair of
  \<^verbatim>\<open>all_entries\<close> and \<^verbatim>\<open>seen_entries\<close>. The line is stripped before it is split here
  (it is not in \<^verbatim>\<open>get_next_call_number\<close>).
\<close>

definition read_line ::
  "entry list \<times> entry_key set \<Rightarrow> string \<Rightarrow> (entry list \<times> entry_key set) \<times> exn option" where
  "read_line st line =
     (if strip line = [] \<or> startswith line ''#'' then (st, None)
      else let parts = str_split TAB (strip line) in
        if length parts \<ge> 4 then
          (case int_py (parts ! 0) of
             Inr n \<Rightarrow>
               let filepath = (if length parts > 4 then parts ! 4 else []);
                   entry_key = (n, parts ! 1, parts ! 2, parts ! 3)
               in if entry_key \<notin> snd st
                  then ((fst st @ [\<lparr>number = n, date = parts ! 1, time = parts ! 2,
                           filename = parts ! 3, filepath = filepath\<rparr>],
                         insert entry_key (snd st)), None)
                  else (st, None)
           | Inl ValueError \<Rightarrow> (st, None)
           | Inl e \<Rightarrow> (st, Some e))
        else (st, None))"

fun read_lines ::
  "entry list \<times> entry_key set \<Rightarrow> string list \<Rightarrow> (entry list \<times> entry_key set) \<times> exn option" where
  "read_lines st [] = (st, None)"
| "read_lines st (line # lines) =
     (case read_line st line of
        (st', None) \<Rightarrow> read_lines st' lines
      | (st', Some e) \<Rightarrow> (st', Some e))"

definition read_file ::
  "filesystem \<Rightarrow> entry list \<times> entry_key set \<Rightarrow> path \<Rightarrow> entry list \<times> entry_key set" where
  "read_file fs st log_file =
     (if \<not> path_exists fs log_file then st
      else case open_readlines fs log_file of
             Inl e \<Rightarrow> st
           | Inr lines \<Rightarrow> fst (read_lines st lines))"

text \<open>\<^verbatim>\<open>all_entries\<close> when the loop over the files is done.\<close>

definition collect_entries :: "module \<Rightarrow> filesystem \<Rightarrow> entry list" where
  "collect_entries m fs = fst (foldl (read_file fs) ([], {}) (LOG_FILES m))"

text \<open>
  \<^verbatim>\<open>xs.sort(key=k, reverse=True)\<close> and \<^verbatim>\<open>sorted(xs, key=k, reverse=True)\<close>: CPython
  reverses the list, sorts it stably in ascending order and reverses it again, so
  elements with the same key keep their order.
\<close>

definition sort_reverse :: "('a \<Rightarrow> 'k::linorder) \<Rightarrow> 'a list \<Rightarrow> 'a list" where
  "sort_reverse k xs = rev (sort_key k (rev xs))"

text \<open>
  The rows of the table \<^verbatim>\<open>read_log\<close> prints, in the order it prints them: the merged
  view. With no entry it prints a notice and no row.
\<close>

definition read_log :: "module \<Rightarrow> filesystem \<Rightarrow> entry list" where
  "read_log m fs =
     (let all_entries = collect_entries m fs
      in if all_entries = [] then [] else sort_reverse number all_entries)"

subsection \<open>Statistics: \<^verbatim>\<open>get_log_stats\<close> of \<^verbatim>\<open>src/logger.py\<close>\<close>

definition stats_line ::
  "stat_entry list \<times> entry_key set \<Rightarrow> string \<Rightarrow> (stat_entry list \<times> entry_key set) \<times> exn option" where
  "stats_line st line =
     (if strip line = [] \<or> startswith line ''#'' then (st, None)
      else let parts = str_split TAB (strip line) in
        if length parts \<ge> 4 then
          (case int_py (parts ! 0) of
             Inr n \<Rightarrow>
               let entry_key = (n, parts ! 1, parts ! 2, parts ! 3)
               in if entry_key \<notin> snd st
                  then ((fst st @ [\<lparr>number = n, date = parts ! 1, time = parts ! 2,
                           filename = parts ! 3\<rparr>],
                         insert entry_key (snd st)), None)
                  else (st, None)
           | Inl ValueError \<Rightarrow> (st, None)
           | Inl e \<Rightarrow> (st, Some e))
        else (st, None))"

fun stats_lines ::
  "stat_entry list \<times> entry_key set \<Rightarrow> string list \<Rightarrow> (stat_entry list \<times> entry_key set) \<times> exn option" where
  "stats_lines st [] = (st, None)"
| "stats_lines st (line # lines) =
     (case stats_line st line of
        (st', None) \<Rightarrow> stats_lines st' lines
      | (st', Some e) \<Rightarrow> (st', Some e))"

definition stats_file ::
  "filesystem \<Rightarrow> stat_entry list \<times> entry_key set \<Rightarrow> path \<Rightarrow> stat_entry list \<times> entry_key set" where
  "stats_file fs st log_file =
     (if \<not> path_exists fs log_file then st
      else case open_readlines fs log_file of
             Inl e \<Rightarrow> st
           | Inr lines \<Rightarrow> fst (stats_lines st lines))"

text \<open>
  \<^verbatim>\<open>program_counts\<close> is a dictionary, and a dictionary keeps its keys in the order of
  their first insertion: an association list, a new key appended, the value of an
  old key replaced where it stands.
\<close>

definition dict_get :: "('k \<times> 'v) list \<Rightarrow> 'k \<Rightarrow> 'v \<Rightarrow> 'v" where
  "dict_get d k dflt = (case map_of d k of None \<Rightarrow> dflt | Some v \<Rightarrow> v)"

fun dict_set :: "('k \<times> 'v) list \<Rightarrow> 'k \<Rightarrow> 'v \<Rightarrow> ('k \<times> 'v) list" where
  "dict_set [] k v = [(k, v)]"
| "dict_set ((k', v') # d) k v =
     (if k' = k then (k', v) # d else (k', v') # dict_set d k v)"

definition count_program :: "(string \<times> nat) list \<Rightarrow> string \<Rightarrow> (string \<times> nat) list" where
  "count_program program_counts program =
     dict_set program_counts program (dict_get program_counts program 0 + 1)"

datatype stats =
    NoData
  | Stats (total: nat) (newest: stat_entry) (oldest: stat_entry)
      (top_programs: "(string \<times> nat) list")

text \<open>
  What \<^verbatim>\<open>get_log_stats\<close> prints: the notice that there is no data, or the number of
  entries, the first and the last entry of the sorted list (it prints their dates and
  times) and the five most frequent programs with their counts.
\<close>

definition get_log_stats :: "module \<Rightarrow> filesystem \<Rightarrow> stats" where
  "get_log_stats m fs =
     (let all_entries = fst (foldl (stats_file fs) ([], {}) (LOG_FILES m))
      in if all_entries = [] then NoData
         else let sorted_entries = sort_reverse number all_entries;
                  program_counts = foldl count_program [] (map filename sorted_entries);
                  sorted_programs = sort_reverse snd program_counts
              in Stats (length sorted_entries) (hd sorted_entries) (last sorted_entries)
                   (take 5 sorted_programs))"

subsection \<open>The caller: \<^verbatim>\<open>get_caller_info\<close>\<close>

text \<open>
  A frame of the interpreter's stack: the file of its code object and the frame that
  called it, \<^verbatim>\<open>None\<close> for the outermost Python frame of a thread.
\<close>

datatype frame = Frame (co_filename: string) (f_back: "frame option")

text \<open>
  The argument is what \<^verbatim>\<open>inspect.currentframe()\<close> returns inside \<^verbatim>\<open>get_caller_info\<close>:
  its own frame, or \<^verbatim>\<open>None\<close> on an interpreter without stack frames. The attribute
  \<^verbatim>\<open>f_back\<close> of \<^verbatim>\<open>None\<close> raises \<^verbatim>\<open>AttributeError\<close>; nothing in the function catches it
  (the \<^verbatim>\<open>try\<close> has a \<^verbatim>\<open>finally\<close> only).
\<close>

definition get_caller_info :: "module \<Rightarrow> frame option \<Rightarrow> exn + string \<times> string" where
  "get_caller_info m frame =
     (case frame of
        None \<Rightarrow> Inl AttributeError
      | Some fr \<Rightarrow>
          (case f_back fr of
             None \<Rightarrow> Inl AttributeError
           | Some fb \<Rightarrow>
               (case f_back fb of
                  None \<Rightarrow> Inr (UNKNOWN m, UNKNOWN m)
                | Some caller_frame \<Rightarrow>
                    let file_path = co_filename caller_frame;
                        file_name = basename file_path
                    in Inr (file_name, file_path))))"

subsection \<open>Recording: \<^verbatim>\<open>log_execution\<close> and \<^verbatim>\<open>insert_entry_at_top\<close>\<close>

definition create_log_file_header :: "module \<Rightarrow> filesystem \<Rightarrow> exn + filesystem" where
  "create_log_file_header m fs = open_write fs (LOG_FILE m) (concat (HEADER m))"

text \<open>
  \<^verbatim>\<open>insert_entry_at_top\<close> of \<^verbatim>\<open>src/logger.py\<close>: the exception that leaves it, if any,
  and the file system it leaves behind.
\<close>

definition insert_entry_at_top :: "module \<Rightarrow> string \<Rightarrow> filesystem \<Rightarrow> exn option \<times> filesystem" where
  "insert_entry_at_top m new_entry fs =
     (case (if \<not> path_exists fs (LOG_FILE m) then create_log_file_header m fs else Inr fs) of
        Inl e \<Rightarrow> (Some e, fs)
      | Inr fs1 \<Rightarrow>
          (case open_readlines fs1 (LOG_FILE m) of
             Inl e \<Rightarrow> (Some e, fs1)
           | Inr existing_lines \<Rightarrow>
               let header_lines = filter (\<lambda>line. startswith line ''#'') existing_lines;
                   data_lines = filter (\<lambda>line. \<not> startswith line ''#'') existing_lines
               in (case open_write fs1 (LOG_FILE m)
                          (concat header_lines @ new_entry @ concat data_lines) of
                     Inl e \<Rightarrow> (Some e, fs1)
                   | Inr fs2 \<Rightarrow> (None, fs2))))"

text \<open>What the interpreter gives one call of \<^verbatim>\<open>log_execution\<close>: the clock and the stack.\<close>

record runtime =
  now :: datetime
  currentframe :: "frame option"

text \<open>
  What \<^verbatim>\<open>log_execution\<close> ends with: the line that reports the entry and its number,
  the line that reports the exception the \<^verbatim>\<open>try\<close> around the insertion caught, or an
  exception of \<^verbatim>\<open>get_caller_info\<close>, which is called outside that \<^verbatim>\<open>try\<close>.
\<close>

datatype outcome = Recorded int string | WriteError exn | Uncaught exn

definition format_entry :: "int \<Rightarrow> string \<Rightarrow> string \<Rightarrow> string \<Rightarrow> string \<Rightarrow> string" where
  "format_entry call_number date_str time_str file_name file_path =
     str_int call_number @ [TAB] @ date_str @ [TAB] @ time_str @ [TAB] @ file_name
       @ [TAB] @ file_path @ [NL]"

definition log_execution :: "module \<Rightarrow> runtime \<Rightarrow> filesystem \<Rightarrow> outcome \<times> filesystem" where
  "log_execution m rt fs =
     (let call_number = get_next_call_number m fs;
          date_str = strftime_date (now rt);
          time_str = strftime_time (now rt)
      in case get_caller_info m (currentframe rt) of
           Inl e \<Rightarrow> (Uncaught e, fs)
         | Inr (file_name, file_path) \<Rightarrow>
             (case insert_entry_at_top m
                     (format_entry call_number date_str time_str file_name file_path) fs of
                (None, fs') \<Rightarrow> (Recorded call_number file_name, fs')
              | (Some e, fs') \<Rightarrow> (WriteError e, fs')))"

text \<open>A run of calls, one after the other on the file system the last one left.\<close>

fun log_executions :: "module \<Rightarrow> runtime list \<Rightarrow> filesystem \<Rightarrow> outcome list \<times> filesystem" where
  "log_executions m [] fs = ([], fs)"
| "log_executions m (rt # rts) fs =
     (case log_execution m rt fs of
        (out, fs') \<Rightarrow> (case log_executions m rts fs' of (outs, fs'') \<Rightarrow> (out # outs, fs'')))"

text \<open>
  In \<^verbatim>\<open>log.py\<close> the test for the missing file stands in \<^verbatim>\<open>log_execution\<close>, inside its
  \<^verbatim>\<open>try\<close>, and \<^verbatim>\<open>insert_entry_at_top\<close> starts with the read.
\<close>

definition insert_entry_at_top_log_py ::
  "module \<Rightarrow> string \<Rightarrow> filesystem \<Rightarrow> exn option \<times> filesystem" where
  "insert_entry_at_top_log_py m new_entry fs =
     (case open_readlines fs (LOG_FILE m) of
        Inl e \<Rightarrow> (Some e, fs)
      | Inr existing_lines \<Rightarrow>
          let header_lines = filter (\<lambda>line. startswith line ''#'') existing_lines;
              data_lines = filter (\<lambda>line. \<not> startswith line ''#'') existing_lines
          in (case open_write fs (LOG_FILE m)
                     (concat header_lines @ new_entry @ concat data_lines) of
                Inl e \<Rightarrow> (Some e, fs)
              | Inr fs2 \<Rightarrow> (None, fs2)))"

definition log_execution_log_py :: "runtime \<Rightarrow> filesystem \<Rightarrow> outcome \<times> filesystem" where
  "log_execution_log_py rt fs =
     (let call_number = get_next_call_number log_py fs;
          date_str = strftime_date (now rt);
          time_str = strftime_time (now rt)
      in case get_caller_info log_py (currentframe rt) of
           Inl e \<Rightarrow> (Uncaught e, fs)
         | Inr (file_name, file_path) \<Rightarrow>
             (case (if \<not> path_exists fs (LOG_FILE log_py)
                    then create_log_file_header log_py fs else Inr fs) of
                Inl e \<Rightarrow> (WriteError e, fs)
              | Inr fs1 \<Rightarrow>
                  (case insert_entry_at_top_log_py log_py
                          (format_entry call_number date_str time_str file_name file_path) fs1 of
                     (None, fs') \<Rightarrow> (Recorded call_number file_name, fs')
                   | (Some e, fs') \<Rightarrow> (WriteError e, fs'))))"

subsection \<open>Statistics: \<^verbatim>\<open>get_log_stats\<close> of \<^verbatim>\<open>log.py\<close>\<close>

text \<open>
  The older function reads the primary file alone and takes its lines as they stand:
  no other file, no set of seen entries, no sort. It prints the number of data lines,
  the second and third field of the first and of the last data line (when both have
  three fields) and the five most frequent fourth fields.
\<close>

datatype stats_log_py =
    NoLogFile
  | NoEntries
  | Failed exn
  | StatsLog (n_lines: nat) (newest_oldest: "((string \<times> string) \<times> (string \<times> string)) option")
      (top_lines: "(string \<times> nat) list")

definition get_log_stats_log_py :: "filesystem \<Rightarrow> stats_log_py" where
  "get_log_stats_log_py fs =
     (if \<not> path_exists fs (LOG_FILE log_py) then NoLogFile
      else case open_readlines fs (LOG_FILE log_py) of
        Inl e \<Rightarrow> Failed e
      | Inr lines \<Rightarrow>
          let data_lines = filter (\<lambda>line. strip line \<noteq> [] \<and> \<not> startswith line ''#'') lines
          in if data_lines = [] then NoEntries
             else
               let newest_parts = str_split TAB (hd data_lines);
                   oldest_parts = str_split TAB (last data_lines);
                   programs = foldl count_program []
                     (map (\<lambda>line. str_split TAB line ! 3)
                        (filter (\<lambda>line. length (str_split TAB line) \<ge> 4) data_lines))
               in StatsLog (length data_lines)
                    (if length newest_parts \<ge> 3 \<and> length oldest_parts \<ge> 3
                     then Some ((newest_parts ! 1, strip (newest_parts ! 2)),
                                (oldest_parts ! 1, strip (oldest_parts ! 2)))
                     else None)
                    (take 5 (sort_reverse snd programs)))"

subsection \<open>The scans, line by line\<close>

text \<open>
  What one line contributes to each scan, read off the loop bodies above:
  \<^verbatim>\<open>get_next_call_number\<close> splits the line as it stands and takes the number of its
  first field; \<^verbatim>\<open>read_log\<close> and \<^verbatim>\<open>get_log_stats\<close> strip the line, split it and want four
  fields. The lemmas below show that the loops compute exactly this.
\<close>

definition line_number :: "string \<Rightarrow> int option" where
  "line_number line =
     (if strip line = [] \<or> startswith line ''#'' then None
      else case int_py (hd (str_split TAB line)) of Inr n \<Rightarrow> Some n | Inl e \<Rightarrow> None)"

definition line_entry :: "string \<Rightarrow> entry option" where
  "line_entry line =
     (if strip line = [] \<or> startswith line ''#'' then None
      else let parts = str_split TAB (strip line) in
        if length parts \<ge> 4 then
          (case int_py (parts ! 0) of
             Inr n \<Rightarrow> Some \<lparr>number = n, date = parts ! 1, time = parts ! 2,
                        filename = parts ! 3,
                        filepath = (if length parts > 4 then parts ! 4 else [])\<rparr>
           | Inl e \<Rightarrow> None)
        else None)"

text \<open>The lines a scan gets from a path: none when it is missing or cannot be read.\<close>

definition file_lines :: "filesystem \<Rightarrow> path \<Rightarrow> string list" where
  "file_lines fs p =
     (case fs p of Absent c \<Rightarrow> [] | Present r w t \<Rightarrow> if r then readlines t else [])"

text \<open>
  The sequence numbers numbering finds, and the entries reading finds, in all known
  files, in the order of the scan and with their repetitions.
\<close>

definition seen_numbers :: "module \<Rightarrow> filesystem \<Rightarrow> int list" where
  "seen_numbers m fs = concat (map (\<lambda>p. List.map_filter line_number (file_lines fs p)) (LOG_FILES m))"

definition parsed_entries :: "module \<Rightarrow> filesystem \<Rightarrow> entry list" where
  "parsed_entries m fs = concat (map (\<lambda>p. List.map_filter line_entry (file_lines fs p)) (LOG_FILES m))"

text \<open>The step of \<^verbatim>\<open>read_log\<close> on an entry: appended unless its key was seen.\<close>

definition add_entry ::
  "'a stat_entry_scheme list \<times> entry_key set \<Rightarrow> 'a stat_entry_scheme
     \<Rightarrow> 'a stat_entry_scheme list \<times> entry_key set" where
  "add_entry st e =
     (if key_of e \<notin> snd st then (fst st @ [e], insert (key_of e) (snd st)) else st)"

text \<open>An entry of \<^verbatim>\<open>read_log\<close> as \<^verbatim>\<open>get_log_stats\<close> keeps it: without the path.\<close>

definition without_path :: "entry \<Rightarrow> stat_entry" where
  "without_path e = \<lparr>number = number e, date = date e, time = time e, filename = filename e\<rparr>"

subsection \<open>Lines of a text\<close>

text \<open>
  A line that ends with its line feed, and a last line without one. The lines of a
  text are of the first kind, but for the last, which may be of the second.
\<close>

definition terminated :: "string \<Rightarrow> bool" where
  "terminated l \<longleftrightarrow> l \<noteq> [] \<and> last l = NL \<and> NL \<notin> set (butlast l)"

definition unterminated :: "string \<Rightarrow> bool" where
  "unterminated l \<longleftrightarrow> l \<noteq> [] \<and> NL \<notin> set l"

fun lines_wf :: "string list \<Rightarrow> bool" where
  "lines_wf [] = True"
| "lines_wf [l] = (terminated l \<or> unterminated l)"
| "lines_wf (l # ls) = (terminated l \<and> lines_wf ls)"

subsection \<open>The state of a reading scan\<close>

text \<open>
  What the loops of \<^verbatim>\<open>read_log\<close> and \<^verbatim>\<open>get_log_stats\<close> keep true of \<^verbatim>\<open>all_entries\<close> and
  \<^verbatim>\<open>seen_entries\<close>: the set holds the keys of the list, and no key is there twice.
\<close>

definition scan_inv :: "'a stat_entry_scheme list \<times> entry_key set \<Rightarrow> bool" where
  "scan_inv st \<longleftrightarrow> snd st = key_of ` set (fst st) \<and> distinct (map key_of (fst st))"

subsection \<open>The ranking of programs, in the spec's words\<close>

text \<open>
  The spec has \<^verbatim>\<open>topSources\<close> group the entries by source name and count the
  occurrences, the groups standing in the order in which their names are first met.
  This is that grouping for a list of names; the theorem of claim C5 compares the
  dictionary loop of \<^verbatim>\<open>get_log_stats\<close> with it.
\<close>

definition first_occurrences :: "'a list \<Rightarrow> 'a list" where
  "first_occurrences xs = rev (remdups (rev xs))"

definition grouped_counts :: "string list \<Rightarrow> (string \<times> nat) list" where
  "grouped_counts names = map (\<lambda>p. (p, count_list names p)) (first_occurrences names)"

subsection \<open>Conditions on the files and on the caller\<close>

text \<open>
  Every comment line of a file ends with its line feed (only the last line of a text
  can lack it), and every line of the known files that is not blank starts with a
  character that is no white space, so that stripping removes nothing in front of its
  first field.
\<close>

definition comment_lines_terminated :: "filesystem \<Rightarrow> path \<Rightarrow> bool" where
  "comment_lines_terminated fs p \<longleftrightarrow>
     list_all (\<lambda>l. startswith l ''#'' \<longrightarrow> last l = NL) (file_lines fs p)"

definition left_aligned :: "string \<Rightarrow> bool" where
  "left_aligned l \<longleftrightarrow> strip l = [] \<or> \<not> isspace (hd l)"

definition files_left_aligned :: "module \<Rightarrow> filesystem \<Rightarrow> bool" where
  "files_left_aligned m fs \<longleftrightarrow>
     list_all (\<lambda>p. list_all left_aligned (file_lines fs p)) (LOG_FILES m)"

text \<open>
  A caller's name and path with no line break in them (a carriage return would be
  read back as one), and a caller that the line format can hold: moreover no tab in
  the name, and a path that is not empty and does not end in white space, which
  stripping the line would remove.
\<close>

definition line_safe :: "string \<times> string \<Rightarrow> bool" where
  "line_safe s \<longleftrightarrow>
     (case s of (file_name, file_path) \<Rightarrow>
        NL \<notin> set file_name \<and> CR \<notin> set file_name
        \<and> NL \<notin> set file_path \<and> CR \<notin> set file_path)"

definition plain_source :: "string \<times> string \<Rightarrow> bool" where
  "plain_source s \<longleftrightarrow>
     line_safe s
     \<and> (case s of (file_name, file_path) \<Rightarrow>
        TAB \<notin> set file_name \<and> file_path \<noteq> [] \<and> \<not> isspace (last file_path))"

text \<open>A call whose caller \<^verbatim>\<open>get_caller_info\<close> finds, and finds to be of that kind.\<close>

definition safe_caller :: "module \<Rightarrow> runtime \<Rightarrow> bool" where
  "safe_caller m rt \<longleftrightarrow>
     (case get_caller_info m (currentframe rt) of Inl e \<Rightarrow> False | Inr s \<Rightarrow> line_safe s)"

definition plain_caller :: "module \<Rightarrow> runtime \<Rightarrow> bool" where
  "plain_caller m rt \<longleftrightarrow>
     (case get_caller_info m (currentframe rt) of Inl e \<Rightarrow> False | Inr s \<Rightarrow> plain_source s)"

text \<open>The call number a call reports, when it reports one.\<close>

fun recorded_number :: "outcome \<Rightarrow> int option" where
  "recorded_number (Recorded n file_name) = Some n"
| "recorded_number (WriteError e) = None"
| "recorded_number (Uncaught e) = None"

text \<open>
  The two modules share this: the primary file is among the files every scan reads,
  and the header written into a new file consists of comment lines that end with
  their line feeds.
\<close>

definition well_configured :: "module \<Rightarrow> bool" where
  "well_configured m \<longleftrightarrow>
     LOG_FILE m \<in> set (LOG_FILES m)
     \<and> list_all (\<lambda>l. terminated l \<and> startswith l ''#'') (HEADER m)"

text \<open>The characters of a formatted call number, date or time.\<close>

definition field_char :: "char \<Rightarrow> bool" where
  "field_char c \<longleftrightarrow> is_digit c \<or> c = CHR ''-'' \<or> c = CHR '':''"

text \<open>
  The lines \<^verbatim>\<open>insert_entry_at_top\<close> reads from the primary file: those of the header it
  has just written when the file was missing.
\<close>

definition primary_lines :: "module \<Rightarrow> filesystem \<Rightarrow> string list" where
  "primary_lines m fs =
     (case fs (LOG_FILE m) of
        Absent c \<Rightarrow> readlines (concat (HEADER m))
      | Present r w t \<Rightarrow> readlines t)"

subsection \<open>Example installations\<close>

text \<open>
  A legacy log in the root directory, with an entry and a malformed line, and the
  primary log of \<^verbatim>\<open>src/logger.py\<close> with a header, an entry of its own and a copy of
  the legacy entry under another path. No other path exists. The theorems below are
  applied to it and to the installations that follow it.
\<close>

fun row :: "string list \<Rightarrow> string" where
  "row [] = [NL]"
| "row [c] = c @ [NL]"
| "row (c # cs) = c @ TAB # row cs"

definition legacy_text :: string where
  "legacy_text = row [''5'', ''2025-01-01'', ''10:00:00'', ''old.py'', ''/p/old.py'']
     @ row [''abc'', ''bad'', ''data'']"

definition primary_text :: string where
  "primary_text = ''# log'' @ [NL]
     @ row [''7'', ''2025-10-08'', ''14:30:25'', ''main.py'', ''/p/main.py'']
     @ row [''5'', ''2025-01-01'', ''10:00:00'', ''old.py'', ''/moved/old.py'']"

definition example_fs :: filesystem where
  "example_fs = (\<lambda>p. Absent True)
     (''program_log.txt'' := Present True True legacy_text,
      ''logs/program_log.txt'' := Present True True primary_text)"

text \<open>A call of \<^verbatim>\<open>log_execution\<close> from \<^verbatim>\<open>/p/main.py\<close> on 9 October 2025 at 08:05:03.\<close>

definition example_run :: runtime where
  "example_run = \<lparr>
     now = \<lparr>year = 2025, month = 10, day = 9, hour = 8, minute = 5, second = 3\<rparr>,
     currentframe = Some (Frame ''/p/src/logger.py'' (Some (Frame ''/p/src/logger.py''
       (Some (Frame ''/p/main.py'' None))))) \<rparr>"

text \<open>A lone legacy log whose sequence numbers are negative or zero.\<close>

definition negative_fs :: filesystem where
  "negative_fs = (\<lambda>p. Absent True)
     (''program_log.txt'' := Present True True
        (row [''-3'', ''2024-12-31'', ''23:59:59'', ''a.py'', ''/p/a.py'']
         @ row [''0'', ''2025-01-01'', ''00:00:00'', ''b.py'', ''/p/b.py'']))"

text \<open>
  An installation of \<^verbatim>\<open>log.py\<close>: its primary log with one entry and the log of the
  \<^verbatim>\<open>sub\<close> directory with an older one.
\<close>

definition log_py_fs :: filesystem where
  "log_py_fs = (\<lambda>p. Absent True)
     (''program_log.txt'' := Present True True
        (row [''2'', ''2025-10-08'', ''14:30:25'', ''b.py'', ''/p/b.py'']),
      ''sub/program_log.txt'' := Present True True
        (row [''1'', ''2025-10-07'', ''09:00:00'', ''a.py'', ''/p/a.py'']))"

text \<open>
  Two installations of \<^verbatim>\<open>src/logger.py\<close> for the ranking: one whose legacy log holds
  an older run of \<^verbatim>\<open>a.x\<close> and whose primary log a newer run of \<^verbatim>\<open>b.x\<close>, and one with
  three runs, two of \<^verbatim>\<open>a.x\<close> and one of \<^verbatim>\<open>b.x\<close>.
\<close>

definition tie_fs :: filesystem where
  "tie_fs = (\<lambda>p. Absent True)
     (''program_log.txt'' := Present True True
        (row [''1'', ''2025-10-07'', ''09:00:00'', ''a.x'', ''/p/a.x'']),
      ''logs/program_log.txt'' := Present True True
        (row [''2'', ''2025-10-08'', ''14:30:25'', ''b.x'', ''/p/b.x'']))"

definition three_fs :: filesystem where
  "three_fs = (\<lambda>p. Absent True)
     (''logs/program_log.txt'' := Present True True
        (row [''3'', ''2025-10-09'', ''08:00:00'', ''a.x'', ''/p/a.x'']
         @ row [''2'', ''2025-10-08'', ''14:30:25'', ''b.x'', ''/p/b.x'']
         @ row [''1'', ''2025-10-07'', ''09:00:00'', ''a.x'', ''/p/a.x'']))"

text \<open>
  Two more installations of \<^verbatim>\<open>src/logger.py\<close>: one with a legacy log that ends at call
  number 5 and no primary log yet, and one whose only log holds negative call numbers.
\<close>

definition legacy_fs :: filesystem where
  "legacy_fs = (\<lambda>p. Absent True)
     (''program_log.txt'' := Present True True
        (row [''5'', ''2025-01-01'', ''10:00:00'', ''old.py'', ''/p/old.py'']))"

definition below_zero_fs :: filesystem where
  "below_zero_fs = (\<lambda>p. Absent True)
     (''program_log.txt'' := Present True True
        (row [''-3'', ''2024-12-31'', ''23:59:59'', ''a.py'', ''/p/a.py'']
         @ row [''-5'', ''2024-12-30'', ''12:00:00'', ''b.py'', ''/p/b.py'']))"

text \<open>
  An installation of \<^verbatim>\<open>src/logger.py\<close> whose legacy log has a line that starts with a
  tab, and one whose primary log is a single comment line without line feed.
\<close>

definition shifted_fs :: filesystem where
  "shifted_fs = (\<lambda>p. Absent True)
     (''program_log.txt'' := Present True True
        (TAB # row [''9'', ''2025-01-01'', ''10:00:00'', ''old.py'', ''/p/old.py'']))"

definition open_header_fs :: filesystem where
  "open_header_fs = (\<lambda>p. Absent True)
     (''logs/program_log.txt'' := Present True True ''# log'')"

section \<open>Properties\<close>

subsection \<open>Splitting a string and cutting a text into lines\<close>

lemma str_split_not_Nil [simp]: "str_split sep s \<noteq> []"
  by (induction s) (auto split: list.splits)

lemma str_split_no_sep: "sep \<notin> set a \<Longrightarrow> str_split sep a = [a]"
  by (induction a) auto

lemma str_split_append: "sep \<notin> set a \<Longrightarrow> str_split sep (a @ sep # b) = a # str_split sep b"
  by (induction a) auto

lemma hd_str_split: "hd (str_split sep s) = takeWhile (\<lambda>c. c \<noteq> sep) s"
  by (induction s) (auto split: list.splits)

lemma length_str_split: "length (str_split sep s) = Suc (length (filter (\<lambda>c. c = sep) s))"
  by (induction s) (auto split: list.splits)

lemma readlines_not_Nil [simp]: "readlines s = [] \<longleftrightarrow> s = []"
  by (cases s) (auto split: list.splits)

lemma concat_readlines [simp]: "concat (readlines s) = s"
  by (induction s) (auto split: list.splits)

lemma readlines_append_NL:
  "readlines (a @ NL # b) = readlines (a @ [NL]) @ readlines b"
proof (induction a)
  case Nil
  then show ?case by simp
next
  case (Cons c a)
  show ?case
  proof (cases "c = NL")
    case True
    then show ?thesis using Cons by simp
  next
    case False
    obtain l ls where r: "readlines (a @ [NL]) = l # ls"
      by (cases "readlines (a @ [NL])") auto
    show ?thesis using Cons False r by simp
  qed
qed

lemma readlines_line: "NL \<notin> set l \<Longrightarrow> readlines (l @ [NL]) = [l @ [NL]]"
  by (induction l) auto

lemma readlines_unterminated: "NL \<notin> set l \<Longrightarrow> l \<noteq> [] \<Longrightarrow> readlines l = [l]"
proof (induction l)
  case Nil
  then show ?case by simp
next
  case (Cons c l)
  then show ?case by (cases "l = []") auto
qed

subsection \<open>Numbers and their strings\<close>

lemma digit_cases: "d < 10 \<Longrightarrow> d \<in> {0, 1, 2, 3, 4, 5, 6, 7, 8, 9::nat}"
  by auto

lemma is_digit_digit_char: "d < 10 \<Longrightarrow> is_digit (digit_char d)"
  by (drule digit_cases) (auto simp: is_digit_def digit_char_def)

lemma digit_value_digit_char: "d < 10 \<Longrightarrow> digit_value (digit_char d) = int d"
  by (drule digit_cases) (auto simp: digit_value_def digit_char_def)

lemma is_digit_not_special:
  "is_digit c \<Longrightarrow> c \<noteq> CHR ''_'' \<and> c \<noteq> CHR ''-'' \<and> c \<noteq> CHR ''+'' \<and> c \<noteq> TAB \<and> c \<noteq> NL
     \<and> c \<noteq> CR \<and> c \<noteq> CHR ''#'' \<and> \<not> int_space c \<and> \<not> isspace c"
  by (auto simp: is_digit_def int_space_def isspace_def)

lemma str_nat_digits: "list_all is_digit (str_nat n)"
proof (induction n rule: str_nat.induct)
  case (1 n)
  show ?case
  proof (cases "n < 10")
    case True
    then show ?thesis by (subst str_nat.simps) (simp add: is_digit_digit_char)
  next
    case False
    then show ?thesis using 1 by (subst str_nat.simps) (simp add: is_digit_digit_char)
  qed
qed

lemma str_nat_not_Nil [simp]: "str_nat n \<noteq> []"
  by (subst str_nat.simps) simp

lemma body_ok_digits: "ds \<noteq> [] \<Longrightarrow> list_all is_digit ds \<Longrightarrow> body_ok ds"
  by (induction ds rule: body_ok.induct) (auto dest: is_digit_not_special)

lemma digits_value_snoc:
  "is_digit d \<Longrightarrow> digits_value (ds @ [d]) = 10 * digits_value ds + digit_value d"
  by (simp add: digits_value_def)

lemma digits_value_single: "is_digit d \<Longrightarrow> digits_value [d] = digit_value d"
  by (simp add: digits_value_def)

lemma digits_value_str_nat: "digits_value (str_nat n) = int n"
proof (induction n rule: str_nat.induct)
  case (1 n)
  show ?case
  proof (cases "n < 10")
    case True
    then show ?thesis
      by (subst str_nat.simps) (simp add: digits_value_single is_digit_digit_char digit_value_digit_char)
  next
    case False
    then have "digits_value (str_nat n) = 10 * int (n div 10) + int (n mod 10)"
      using 1 by (subst str_nat.simps) (simp add: digits_value_snoc is_digit_digit_char digit_value_digit_char)
    then show ?thesis by presburger
  qed
qed

lemma takeWhile_all: "list_all P xs \<Longrightarrow> takeWhile P xs = xs"
  by (induction xs) auto

lemma dropWhile_all: "list_all P xs \<Longrightarrow> dropWhile P xs = []"
  by (induction xs) auto

lemma list_all_weaken: "list_all P xs \<Longrightarrow> (\<And>x. P x \<Longrightarrow> Q x) \<Longrightarrow> list_all Q xs"
  by (induction xs) auto

lemma int_py_str_nat: "int_py (str_nat n) = Inr (int n)"
proof -
  let ?s = "str_nat n"
  have ne: "?s \<noteq> []" by simp
  have dg: "list_all is_digit ?s" by (rule str_nat_digits)
  then have hd: "is_digit (hd ?s)" using ne by (cases ?s) auto
  have t: "dropWhile int_space ?s = ?s"
    using ne hd by (cases ?s) (auto dest: is_digit_not_special)
  have du: "list_all (\<lambda>c. is_digit c \<or> c = CHR ''_'') ?s"
    using dg by (rule list_all_weaken) simp
  show ?thesis
    using ne hd is_digit_not_special[OF hd]
    by (simp add: int_py_def Let_def t takeWhile_all[OF du] dropWhile_all[OF du]
        body_ok_digits[OF ne dg] digits_value_str_nat)
qed

lemma int_py_str_int: "int_py (str_int i) = Inr i"
proof (cases "i < 0")
  case False
  then show ?thesis by (simp add: str_int_def int_py_str_nat)
next
  case True
  let ?s = "str_nat (nat (- i))"
  have ne: "?s \<noteq> []" by simp
  have dg: "list_all is_digit ?s" by (rule str_nat_digits)
  have du: "list_all (\<lambda>c. is_digit c \<or> c = CHR ''_'') ?s"
    using dg by (rule list_all_weaken) simp
  have sp: "\<not> int_space CHR ''-''" by (simp add: int_space_def)
  show ?thesis
    using True sp
    by (simp add: str_int_def int_py_def Let_def takeWhile_all[OF du] dropWhile_all[OF du]
        body_ok_digits[OF ne dg] digits_value_str_nat)
qed

lemma int_py_error: "int_py s = Inl e \<Longrightarrow> e = ValueError"
  by (auto simp: int_py_def Let_def split: if_splits)

lemma str_int_chars: "c \<in> set (str_int i) \<Longrightarrow> is_digit c \<or> c = CHR ''-''"
  using str_nat_digits[of "nat (- i)"] str_nat_digits[of "nat i"]
  by (auto simp: str_int_def list_all_iff split: if_splits)

lemma str_int_not_Nil [simp]: "str_int i \<noteq> []"
  by (simp add: str_int_def)

subsection \<open>Lines of a text, and stripping\<close>

lemma terminated_Cons: "c \<noteq> NL \<Longrightarrow> terminated l \<Longrightarrow> terminated (c # l)"
  by (auto simp: terminated_def)

lemma unterminated_Cons: "c \<noteq> NL \<Longrightarrow> unterminated l \<Longrightarrow> unterminated (c # l)"
  by (auto simp: unterminated_def)

lemma lines_wf_readlines: "lines_wf (readlines s)"
proof (induction s)
  case Nil
  then show ?case by simp
next
  case (Cons c cs)
  show ?case
  proof (cases "c = NL")
    case True
    have "terminated [NL]" by (simp add: terminated_def)
    then show ?thesis using True Cons by (cases "readlines cs") auto
  next
    case False
    show ?thesis
    proof (cases "cs = []")
      case True
      then show ?thesis using False by (simp add: unterminated_def)
    next
      case ne: False
      then obtain l ls where r: "readlines cs = l # ls" by (cases "readlines cs") auto
      show ?thesis using Cons False ne r
        by (cases ls) (auto intro: terminated_Cons unterminated_Cons)
    qed
  qed
qed

lemma readlines_terminated: "terminated l \<Longrightarrow> readlines (l @ r) = l # readlines r"
proof -
  assume t: "terminated l"
  then obtain a where l: "l = a @ [NL]" and a: "NL \<notin> set a"
    by (metis terminated_def append_butlast_last_id)
  have "readlines (a @ NL # r) = readlines (a @ [NL]) @ readlines r"
    by (rule readlines_append_NL)
  then show ?thesis using l a by (simp add: readlines_line)
qed

lemma readlines_concat_terminated:
  "list_all terminated ls \<Longrightarrow> readlines (concat ls @ r) = ls @ readlines r"
  by (induction ls) (auto simp: readlines_terminated)

lemma readlines_concat_wf: "lines_wf ls \<Longrightarrow> readlines (concat ls) = ls"
proof (induction ls rule: lines_wf.induct)
  case 1
  then show ?case by simp
next
  case (2 l)
  then show ?case
    using readlines_terminated[of l "[]"] readlines_unterminated[of l]
    by (auto simp: unterminated_def)
next
  case (3 l v va)
  then show ?case by (simp add: readlines_terminated)
qed

lemma lines_wf_Cons: "terminated l \<Longrightarrow> lines_wf ls \<Longrightarrow> lines_wf (l # ls)"
  by (cases ls) auto

lemma lines_wf_tail: "lines_wf (l # ls) \<Longrightarrow> lines_wf ls"
  by (cases ls) auto

lemma lines_wf_head: "lines_wf (l # ls) \<Longrightarrow> terminated l \<or> (unterminated l \<and> ls = [])"
  by (cases ls) auto

lemma lines_wf_filter: "lines_wf ls \<Longrightarrow> lines_wf (filter P ls)"
proof (induction ls)
  case Nil
  then show ?case by simp
next
  case (Cons l ls)
  then have wf: "lines_wf (filter P ls)" by (auto dest: lines_wf_tail)
  show ?case
  proof (cases "P l")
    case False
    then show ?thesis using wf by simp
  next
    case True
    from lines_wf_head[OF Cons.prems] show ?thesis
    proof
      assume "terminated l"
      then show ?thesis using True wf by (simp add: lines_wf_Cons)
    next
      assume "unterminated l \<and> ls = []"
      then show ?thesis using True by simp
    qed
  qed
qed

text \<open>Stripping leaves a string alone that neither starts nor ends with white space.\<close>

lemma strip_Nil [simp]: "strip [] = []"
  by (simp add: strip_def)

lemma strip_id: "s \<noteq> [] \<Longrightarrow> \<not> isspace (hd s) \<Longrightarrow> \<not> isspace (last s) \<Longrightarrow> strip s = s"
proof -
  assume a: "s \<noteq> []" "\<not> isspace (hd s)" "\<not> isspace (last s)"
  then have 1: "dropWhile isspace s = s" by (cases s) auto
  have "rev s \<noteq> []" "\<not> isspace (hd (rev s))" using a by (auto simp: hd_rev)
  then have 2: "dropWhile isspace (rev s) = rev s"
    by (metis dropWhile.simps(2) list.exhaust_sel)
  show ?thesis by (simp add: strip_def 1 2)
qed

lemma strip_trailing:
  "s \<noteq> [] \<Longrightarrow> \<not> isspace (hd s) \<Longrightarrow> list_all isspace w \<Longrightarrow> strip (s @ w) = strip s"
proof -
  assume a: "s \<noteq> []" "\<not> isspace (hd s)" "list_all isspace w"
  then have 1: "dropWhile isspace s = s" by (cases s) auto
  have 2: "dropWhile isspace (s @ w) = s @ w" using a by (cases s) auto
  have 3: "dropWhile isspace (rev w @ rev s) = dropWhile isspace (rev s)"
    using a(3) by (simp add: dropWhile_append list_all_iff)
  show ?thesis by (simp add: strip_def 1 2 3)
qed

lemma strip_line:
  "s \<noteq> [] \<Longrightarrow> \<not> isspace (hd s) \<Longrightarrow> \<not> isspace (last s) \<Longrightarrow> strip (s @ [NL]) = s"
  using strip_trailing[of s "[NL]"] strip_id[of s] by (simp add: isspace_def)

lemma strip_prefix:
  "\<not> isspace (hd l) \<Longrightarrow> \<exists>w. l = strip l @ w"
proof (cases "l = []")
  case True
  then show ?thesis by simp
next
  case False
  assume "\<not> isspace (hd l)"
  then have 1: "dropWhile isspace l = l" using False by (cases l) auto
  have "rev l = takeWhile isspace (rev l) @ dropWhile isspace (rev l)" by simp
  then have "l = rev (dropWhile isspace (rev l)) @ rev (takeWhile isspace (rev l))"
    by (metis rev_append rev_rev_ident)
  then show ?thesis by (auto simp: strip_def 1)
qed

subsection \<open>What numbering computes\<close>

lemma length_str_split_pos [simp]: "Suc 0 \<le> length (str_split sep s)"
  by (cases "str_split sep s") (use str_split_not_Nil in auto)

lemma number_line_eq:
  "number_line mx l = (case line_number l of None \<Rightarrow> mx | Some n \<Rightarrow> max mx n, None)"
proof (cases "int_py (hd (str_split TAB l))")
  case (Inl e)
  then have "e = ValueError" by (rule int_py_error)
  then show ?thesis using Inl
    by (simp add: number_line_def line_number_def Let_def hd_conv_nth)
next
  case (Inr n)
  then show ?thesis
    by (simp add: number_line_def line_number_def Let_def hd_conv_nth)
qed

lemma map_filter_Cons:
  "List.map_filter f (x # xs) = (case f x of None \<Rightarrow> List.map_filter f xs | Some y \<Rightarrow> y # List.map_filter f xs)"
  by (simp add: List.map_filter_def split: option.splits)

lemma map_filter_Nil [simp]: "List.map_filter f [] = []"
  by (simp add: List.map_filter_def)

lemma map_filter_append_eq:
  "List.map_filter f (xs @ ys) = List.map_filter f xs @ List.map_filter f ys"
  by (simp add: List.map_filter_def)


lemma set_map_filter: "set (List.map_filter f xs) = {y. \<exists>x\<in>set xs. f x = Some y}"
  by (induction xs) (auto simp: map_filter_Cons split: option.splits)

lemma number_lines_eq:
  "number_lines mx ls = (foldl max mx (List.map_filter line_number ls), None)"
  by (induction ls arbitrary: mx)
     (auto simp: number_line_eq map_filter_Cons split: option.splits)

lemma number_file_eq:
  "number_file fs mx p = foldl max mx (List.map_filter line_number (file_lines fs p))"
  by (auto simp: number_file_def path_exists_def open_readlines_def file_lines_def
      number_lines_eq split: node.splits)

lemma foldl_number_file:
  "foldl (number_file fs) mx ps =
     foldl max mx (concat (map (\<lambda>p. List.map_filter line_number (file_lines fs p)) ps))"
  by (induction ps arbitrary: mx) (auto simp: number_file_eq)

lemma foldl_max_Max: "foldl max (mx::int) ns = Max (insert mx (set ns))"
proof (induction ns arbitrary: mx)
  case Nil
  then show ?case by simp
next
  case (Cons n ns)
  have "Max (insert (max mx n) (set ns)) = Max (insert mx (insert n (set ns)))"
    by (cases "set ns = {}") (auto simp: max.assoc)
  then show ?case using Cons by simp
qed

lemma get_next_call_number_Max:
  "get_next_call_number m fs = 1 + Max (insert 0 (set (seen_numbers m fs)))"
  by (simp add: get_next_call_number_def seen_numbers_def foldl_number_file foldl_max_Max)

lemma get_next_call_number_positive: "1 \<le> get_next_call_number m fs"
  by (simp add: get_next_call_number_Max)

lemma seen_below_next: "n \<in> set (seen_numbers m fs) \<Longrightarrow> n < get_next_call_number m fs"
proof -
  assume "n \<in> set (seen_numbers m fs)"
  then have "n \<le> Max (insert 0 (set (seen_numbers m fs)))" by simp
  then show ?thesis by (simp add: get_next_call_number_Max)
qed

lemma number_lines_no_exception: "snd (number_lines mx ls) = None"
  by (simp add: number_lines_eq)

subsection \<open>What reading computes\<close>

lemma read_line_eq:
  "read_line st l = (case line_entry l of None \<Rightarrow> st | Some e \<Rightarrow> add_entry st e, None)"
proof (cases "int_py (str_split TAB (strip l) ! 0)")
  case (Inl e)
  then have "e = ValueError" by (rule int_py_error)
  then show ?thesis using Inl
    by (simp add: read_line_def line_entry_def Let_def)
next
  case (Inr n)
  then show ?thesis
    by (simp add: read_line_def line_entry_def Let_def add_entry_def key_of_def)
qed

lemma read_lines_eq:
  "read_lines st ls = (foldl add_entry st (List.map_filter line_entry ls), None)"
  by (induction ls arbitrary: st)
     (auto simp: read_line_eq map_filter_Cons split: option.splits)

lemma read_file_eq:
  "read_file fs st p = foldl add_entry st (List.map_filter line_entry (file_lines fs p))"
  by (auto simp: read_file_def path_exists_def open_readlines_def file_lines_def
      read_lines_eq split: node.splits)

lemma foldl_read_file:
  "foldl (read_file fs) st ps =
     foldl add_entry st (concat (map (\<lambda>p. List.map_filter line_entry (file_lines fs p)) ps))"
  by (induction ps arbitrary: st) (auto simp: read_file_eq)

lemma collect_entries_eq:
  "collect_entries m fs = fst (foldl add_entry ([], {}) (parsed_entries m fs))"
  by (simp add: collect_entries_def parsed_entries_def foldl_read_file)

lemma read_lines_no_exception: "snd (read_lines st ls) = None"
  by (simp add: read_lines_eq)

text \<open>The set of seen keys and the list of entries go together.\<close>

lemma scan_inv_add: "scan_inv st \<Longrightarrow> scan_inv (add_entry st e)"
  by (auto simp: scan_inv_def add_entry_def)

lemma scan_inv_foldl: "scan_inv st \<Longrightarrow> scan_inv (foldl add_entry st es)"
  by (induction es arbitrary: st) (auto simp: scan_inv_add)

lemma scan_inv_empty: "scan_inv ([], {})"
  by (simp add: scan_inv_def)

lemma foldl_add_subset: "set (fst (foldl add_entry st es)) \<subseteq> set (fst st) \<union> set es"
proof (induction es arbitrary: st)
  case Nil
  then show ?case by simp
next
  case (Cons e es)
  have "set (fst (add_entry st e)) \<subseteq> set (fst st) \<union> {e}"
    by (auto simp: add_entry_def)
  then show ?case using Cons[of "add_entry st e"] by auto
qed

lemma foldl_add_keys:
  "snd (foldl add_entry st es) = snd st \<union> key_of ` set es"
  by (induction es arbitrary: st) (auto simp: add_entry_def)

lemma foldl_add_prefix: "\<exists>zs. fst (foldl add_entry st es) = fst st @ zs"
proof (induction es arbitrary: st)
  case Nil
  then show ?case by simp
next
  case (Cons e es)
  obtain zs where zs: "fst (foldl add_entry (add_entry st e) es) = fst (add_entry st e) @ zs"
    using Cons by blast
  obtain ys where ys: "fst (add_entry st e) = fst st @ ys"
    by (cases "key_of e \<in> snd st") (simp_all add: add_entry_def)
  have "fst (foldl add_entry st (e # es)) = fst st @ (ys @ zs)"
    using zs ys by simp
  then show ?case by blast
qed

lemma distinct_keys_collect: "distinct (map key_of (collect_entries m fs))"
  using scan_inv_foldl[OF scan_inv_empty, of "parsed_entries m fs"]
  by (simp add: collect_entries_eq scan_inv_def)

lemma collect_subset: "set (collect_entries m fs) \<subseteq> set (parsed_entries m fs)"
  using foldl_add_subset[of "([], {})" "parsed_entries m fs"]
  by (simp add: collect_entries_eq)

lemma collect_keys: "key_of ` set (collect_entries m fs) = key_of ` set (parsed_entries m fs)"
proof -
  let ?r = "foldl add_entry ([], {}) (parsed_entries m fs)"
  have "scan_inv ?r" by (rule scan_inv_foldl[OF scan_inv_empty])
  then have "key_of ` set (fst ?r) = snd ?r" by (simp add: scan_inv_def)
  also have "\<dots> = key_of ` set (parsed_entries m fs)" by (simp add: foldl_add_keys)
  finally show ?thesis by (simp add: collect_entries_eq)
qed

text \<open>The scan of \<^verbatim>\<open>get_log_stats\<close> collects the entries of \<^verbatim>\<open>read_log\<close> without their paths.\<close>

lemma key_of_without_path [simp]: "key_of (without_path e) = key_of e"
  by (simp add: key_of_def without_path_def)

lemma stats_line_eq:
  "stats_line st l =
     (case line_entry l of None \<Rightarrow> st | Some e \<Rightarrow> add_entry st (without_path e), None)"
proof (cases "int_py (str_split TAB (strip l) ! 0)")
  case (Inl e)
  then have "e = ValueError" by (rule int_py_error)
  then show ?thesis using Inl
    by (simp add: stats_line_def line_entry_def Let_def)
next
  case (Inr n)
  then show ?thesis
    by (simp add: stats_line_def line_entry_def Let_def add_entry_def key_of_def without_path_def)
qed

lemma stats_lines_eq:
  "stats_lines st ls =
     (foldl add_entry st (map without_path (List.map_filter line_entry ls)), None)"
  by (induction ls arbitrary: st)
     (auto simp: stats_line_eq map_filter_Cons split: option.splits)

lemma stats_file_eq:
  "stats_file fs st p =
     foldl add_entry st (map without_path (List.map_filter line_entry (file_lines fs p)))"
  by (auto simp: stats_file_def path_exists_def open_readlines_def file_lines_def
      stats_lines_eq split: node.splits)

lemma foldl_stats_file:
  "foldl (stats_file fs) st ps =
     foldl add_entry st (map without_path
       (concat (map (\<lambda>p. List.map_filter line_entry (file_lines fs p)) ps)))"
  by (induction ps arbitrary: st) (auto simp: stats_file_eq)

lemma foldl_add_without_path:
  "foldl add_entry (map without_path xs, S) (map without_path es) =
     (map without_path (fst (foldl add_entry (xs, S) es)), snd (foldl add_entry (xs, S) es))"
proof (induction es arbitrary: xs S)
  case Nil
  then show ?case by simp
next
  case (Cons e es)
  show ?case
  proof (cases "key_of e \<in> S")
    case True
    then show ?thesis using Cons[of xs S] by (simp add: add_entry_def)
  next
    case False
    then show ?thesis using Cons[of "xs @ [e]" "insert (key_of e) S"]
      by (simp add: add_entry_def)
  qed
qed

lemma stats_entries_eq:
  "fst (foldl (stats_file fs) ([], {}) (LOG_FILES m)) = map without_path (collect_entries m fs)"
  using foldl_add_without_path[of "[]" "{}" "parsed_entries m fs"]
  by (simp add: foldl_stats_file collect_entries_eq parsed_entries_def)

subsection \<open>Python's reverse sort\<close>

lemma mset_sort_reverse [simp]: "mset (sort_reverse k xs) = mset xs"
  by (simp add: sort_reverse_def)

lemma set_sort_reverse [simp]: "set (sort_reverse k xs) = set xs"
  by (simp add: sort_reverse_def)

lemma length_sort_reverse [simp]: "length (sort_reverse k xs) = length xs"
  by (simp add: sort_reverse_def)

lemma sort_reverse_Nil [simp]: "sort_reverse k xs = [] \<longleftrightarrow> xs = []"
  using length_sort_reverse[of k xs] by (metis length_0_conv)

lemma sort_reverse_descending: "sorted (rev (map k (sort_reverse k xs)))"
  by (simp add: sort_reverse_def rev_map)

lemma sort_reverse_stable:
  "filter (\<lambda>y. k y = c) (sort_reverse k xs) = filter (\<lambda>y. k y = c) xs"
proof -
  have "filter (\<lambda>y. k y = c) (sort_reverse k xs)
      = rev (filter (\<lambda>y. k y = c) (sort_key k (rev xs)))"
    by (simp add: sort_reverse_def rev_filter)
  also have "\<dots> = rev (filter (\<lambda>y. k y = c) (rev xs))"
    by (simp add: sort_key_stable)
  also have "\<dots> = filter (\<lambda>y. k y = c) xs"
    by (simp add: rev_filter)
  finally show ?thesis .
qed

lemma sorted_last_max: "sorted (map k ys) \<Longrightarrow> y \<in> set ys \<Longrightarrow> k y \<le> k (last ys)"
proof (induction ys)
  case Nil
  then show ?case by simp
next
  case (Cons a ys)
  then show ?case by (cases "ys = []") auto
qed

lemma sorted_hd_min: "sorted (map k ys) \<Longrightarrow> y \<in> set ys \<Longrightarrow> k (hd ys) \<le> k y"
  by (cases ys) auto

lemma sort_reverse_hd_max: "x \<in> set xs \<Longrightarrow> k x \<le> k (hd (sort_reverse k xs))"
proof -
  assume x: "x \<in> set xs"
  let ?ys = "sort_key k (rev xs)"
  have ne: "?ys \<noteq> []" using x by (metis empty_iff empty_set set_rev set_sort)
  have "k x \<le> k (last ?ys)"
    using x by (intro sorted_last_max) auto
  then show ?thesis using ne by (simp add: sort_reverse_def hd_rev)
qed

lemma sort_reverse_last_min: "x \<in> set xs \<Longrightarrow> k (last (sort_reverse k xs)) \<le> k x"
proof -
  assume x: "x \<in> set xs"
  let ?ys = "sort_key k (rev xs)"
  have ne: "?ys \<noteq> []" using x by (metis empty_iff empty_set set_rev set_sort)
  have "k (hd ?ys) \<le> k x"
    using x by (intro sorted_hd_min) auto
  then show ?thesis using ne by (simp add: sort_reverse_def last_rev)
qed

lemma hd_sort_reverse_in: "xs \<noteq> [] \<Longrightarrow> hd (sort_reverse k xs) \<in> set xs"
  by (metis hd_in_set set_sort_reverse sort_reverse_Nil)

lemma insort_key_map:
  "insort_key k (f x) (map f xs) = map f (insort_key (\<lambda>y. k (f y)) x xs)"
  by (induction xs) auto

lemma sort_key_map: "sort_key k (map f xs) = map f (sort_key (\<lambda>y. k (f y)) xs)"
  by (induction xs) (auto simp: insort_key_map)

lemma sort_reverse_map: "sort_reverse k (map f xs) = map f (sort_reverse (\<lambda>y. k (f y)) xs)"
  by (simp add: sort_reverse_def sort_key_map rev_map)

lemma filter_key_one:
  "distinct (map f xs) \<Longrightarrow> x \<in> set xs \<Longrightarrow> length (filter (\<lambda>e. f e = f x) xs) = 1"
proof (induction xs)
  case Nil
  then show ?case by simp
next
  case (Cons a xs)
  show ?case
  proof (cases "f a = f x")
    case True
    then have "filter (\<lambda>e. f e = f x) xs = []"
      using Cons.prems(1) by (auto simp: filter_empty_conv image_iff)
    then show ?thesis using True by simp
  next
    case False
    then show ?thesis using Cons by auto
  qed
qed

lemma length_filter_mset: "length (filter P xs) = size (filter_mset P (mset xs))"
  by (metis mset_filter size_mset)

lemma length_filter_sort_reverse:
  "length (filter P (sort_reverse k xs)) = length (filter P xs)"
  by (simp add: length_filter_mset)

lemma distinct_map_sort_reverse:
  "distinct (map f (sort_reverse k xs)) = distinct (map f xs)"
proof -
  have "mset (map f (sort_reverse k xs)) = mset (map f xs)" by simp
  then show ?thesis by (rule mset_eq_imp_distinct_iff)
qed

subsection \<open>The next call number is positive\<close>

text \<open>
  \<^bold>\<open>C10.\<close> \<^verbatim>\<open>get_next_call_number\<close> always returns a positive integer: the running
  maximum starts at 0, so the result is at least 1 whatever the files hold, and it
  is exactly 1 when every sequence number the scan parses is zero or negative (not
  one more than the negative maximum).
\<close>

theorem next_call_number_positive:
  "1 \<le> get_next_call_number m fs
   \<and> ((\<forall>n \<in> set (seen_numbers m fs). n \<le> 0) \<longrightarrow> get_next_call_number m fs = 1)"
proof
  show "1 \<le> get_next_call_number m fs" by (rule get_next_call_number_positive)
next
  show "(\<forall>n \<in> set (seen_numbers m fs). n \<le> 0) \<longrightarrow> get_next_call_number m fs = 1"
  proof
    assume neg: "\<forall>n \<in> set (seen_numbers m fs). n \<le> 0"
    have "Max (insert 0 (set (seen_numbers m fs))) = 0"
    proof (rule Max_eqI)
      show "finite (insert 0 (set (seen_numbers m fs)))" by simp
      show "\<And>y. y \<in> insert 0 (set (seen_numbers m fs)) \<Longrightarrow> y \<le> 0" using neg by auto
      show "0 \<in> insert 0 (set (seen_numbers m fs))" by simp
    qed
    then show "get_next_call_number m fs = 1" by (simp add: get_next_call_number_Max)
  qed
qed

theorem next_call_number_positive_witness:
  "seen_numbers logger_py negative_fs = [- 3, 0] \<and> get_next_call_number logger_py negative_fs = 1"
proof -
  have s: "seen_numbers logger_py negative_fs = [- 3, 0]" by code_simp
  show ?thesis using next_call_number_positive[of logger_py negative_fs] s by simp
qed

subsection \<open>One entry for each key\<close>

lemma file_lines_Present: "fs p = Present True w t \<Longrightarrow> file_lines fs p = readlines t"
  by (simp add: file_lines_def)

lemma parsed_entries_mem:
  "p \<in> set (LOG_FILES m) \<Longrightarrow> l \<in> set (file_lines fs p) \<Longrightarrow> line_entry l = Some e
     \<Longrightarrow> e \<in> set (parsed_entries m fs)"
  by (auto simp: parsed_entries_def set_map_filter)

lemma parsed_entries_elim:
  "e \<in> set (parsed_entries m fs) \<Longrightarrow>
     \<exists>p l. p \<in> set (LOG_FILES m) \<and> l \<in> set (file_lines fs p) \<and> line_entry l = Some e"
  by (auto simp: parsed_entries_def set_map_filter)

lemma read_log_eq: "read_log m fs = sort_reverse number (collect_entries m fs)"
  by (simp add: read_log_def Let_def sort_reverse_def)

lemma distinct_keys_read_log: "distinct (map key_of (read_log m fs))"
  by (simp add: read_log_eq distinct_map_sort_reverse distinct_keys_collect)

lemma read_log_keys: "key_of ` set (read_log m fs) = key_of ` set (parsed_entries m fs)"
  by (simp add: read_log_eq collect_keys)

lemma read_log_subset: "set (read_log m fs) \<subseteq> set (parsed_entries m fs)"
  using collect_subset by (simp add: read_log_eq)

text \<open>
  \<^bold>\<open>C4.\<close> When two known files (or one file twice) each hold a line that \<^verbatim>\<open>read_log\<close>
  parses to the same tuple of call number, date, time and file name, the merged view
  has exactly one entry with that tuple. The paths of the two lines may differ: the
  path is not in the key of \<^verbatim>\<open>seen_entries\<close>.
\<close>

theorem merged_view_one_entry_per_key:
  assumes "p \<in> set (LOG_FILES m)" and "fs p = Present True wp tp"
    and "lp \<in> set (readlines tp)" and "line_entry lp = Some a"
    and "q \<in> set (LOG_FILES m)" and "fs q = Present True wq tq"
    and "lq \<in> set (readlines tq)" and "line_entry lq = Some b"
    and "key_of a = key_of b"
  shows "length (filter (\<lambda>e. key_of e = key_of a) (read_log m fs)) = 1"
proof -
  have "a \<in> set (parsed_entries m fs)"
    using assms(1-4) by (auto intro: parsed_entries_mem simp: file_lines_Present)
  then have "key_of a \<in> key_of ` set (read_log m fs)"
    by (simp add: read_log_keys)
  then obtain x where x: "x \<in> set (read_log m fs)" and k: "key_of x = key_of a"
    by auto
  have "length (filter (\<lambda>e. key_of e = key_of x) (read_log m fs)) = 1"
    using distinct_keys_read_log x by (rule filter_key_one)
  then show ?thesis by (simp add: k)
qed

theorem merged_view_one_entry_per_key_witness:
  "line_entry (row [''5'', ''2025-01-01'', ''10:00:00'', ''old.py'', ''/p/old.py''])
     = Some \<lparr>number = 5, date = ''2025-01-01'', time = ''10:00:00'', filename = ''old.py'',
             filepath = ''/p/old.py''\<rparr>
   \<and> line_entry (row [''5'', ''2025-01-01'', ''10:00:00'', ''old.py'', ''/moved/old.py''])
     = Some \<lparr>number = 5, date = ''2025-01-01'', time = ''10:00:00'', filename = ''old.py'',
             filepath = ''/moved/old.py''\<rparr>
   \<and> length (filter (\<lambda>e. key_of e = (5, ''2025-01-01'', ''10:00:00'', ''old.py''))
        (read_log logger_py example_fs)) = 1"
proof -
  let ?lp = "row [''5'', ''2025-01-01'', ''10:00:00'', ''old.py'', ''/p/old.py'']"
  let ?lq = "row [''5'', ''2025-01-01'', ''10:00:00'', ''old.py'', ''/moved/old.py'']"
  let ?a = "\<lparr>number = 5, date = ''2025-01-01'', time = ''10:00:00'', filename = ''old.py'',
             filepath = ''/p/old.py''\<rparr>"
  let ?b = "\<lparr>number = 5, date = ''2025-01-01'', time = ''10:00:00'', filename = ''old.py'',
             filepath = ''/moved/old.py''\<rparr>"
  have 1: "''program_log.txt'' \<in> set (LOG_FILES logger_py)" by (simp add: logger_py_def)
  have 2: "example_fs ''program_log.txt'' = Present True True legacy_text"
    by (simp add: example_fs_def)
  have 3: "?lp \<in> set (readlines legacy_text)" by code_simp
  have 4: "line_entry ?lp = Some ?a" by code_simp
  have 5: "''logs/program_log.txt'' \<in> set (LOG_FILES logger_py)" by (simp add: logger_py_def)
  have 6: "example_fs ''logs/program_log.txt'' = Present True True primary_text"
    by (simp add: example_fs_def)
  have 7: "?lq \<in> set (readlines primary_text)" by code_simp
  have 8: "line_entry ?lq = Some ?b" by code_simp
  have 9: "key_of ?a = key_of ?b" by (simp add: key_of_def)
  have k: "key_of ?a = (5, ''2025-01-01'', ''10:00:00'', ''old.py'')" by (simp add: key_of_def)
  show ?thesis
    using merged_view_one_entry_per_key[OF 1 2 3 4 5 6 7 8 9] 4 8 unfolding k by simp
qed

subsection \<open>The merged view depends on the known files alone\<close>

lemma file_lines_cong: "fs' p = fs p \<Longrightarrow> file_lines fs' p = file_lines fs p"
  by (simp add: file_lines_def)

lemma parsed_entries_cong:
  "(\<And>p. p \<in> set (LOG_FILES m) \<Longrightarrow> file_lines fs' p = file_lines fs p)
     \<Longrightarrow> parsed_entries m fs' = parsed_entries m fs"
  unfolding parsed_entries_def by (rule arg_cong[where f = concat], rule map_cong) simp_all

lemma seen_numbers_cong:
  "(\<And>p. p \<in> set (LOG_FILES m) \<Longrightarrow> file_lines fs' p = file_lines fs p)
     \<Longrightarrow> seen_numbers m fs' = seen_numbers m fs"
  unfolding seen_numbers_def by (rule arg_cong[where f = concat], rule map_cong) simp_all

lemma read_log_cong:
  "parsed_entries m fs' = parsed_entries m fs \<Longrightarrow> read_log m fs' = read_log m fs"
  by (simp add: read_log_eq collect_entries_eq)

lemma get_next_call_number_cong:
  "seen_numbers m fs' = seen_numbers m fs
     \<Longrightarrow> get_next_call_number m fs' = get_next_call_number m fs"
  by (simp add: get_next_call_number_Max)

text \<open>
  \<^bold>\<open>C9.\<close> The merged view is a function of the state of the known files and of
  nothing else: \<^verbatim>\<open>read_log\<close> opens files for reading only, so a second call that no
  \<^verbatim>\<open>log_execution\<close> separates from the first runs on the same files, and on the same
  files it gives the same entries in the same order.
\<close>

theorem read_log_determined_by_known_files:
  assumes "\<forall>p \<in> set (LOG_FILES m). fs' p = fs p"
  shows "read_log m fs' = read_log m fs"
proof (rule read_log_cong, rule parsed_entries_cong)
  fix p assume "p \<in> set (LOG_FILES m)"
  then have "fs' p = fs p" using assms by blast
  then show "file_lines fs' p = file_lines fs p" by (rule file_lines_cong)
qed

theorem read_log_determined_by_known_files_witness:
  "read_log logger_py (example_fs(''notes.txt'' := Present True True ''99''))
     = read_log logger_py example_fs
   \<and> map number (read_log logger_py example_fs) = [7, 5]"
proof -
  have h: "\<forall>p \<in> set (LOG_FILES logger_py).
      (example_fs(''notes.txt'' := Present True True ''99'')) p = example_fs p"
    by (simp add: logger_py_def)
  have v: "map number (read_log logger_py example_fs) = [7, 5]" by code_simp
  show ?thesis by (rule conjI[OF read_log_determined_by_known_files[OF h] v])
qed

subsection \<open>Malformed lines\<close>

lemma readlines_append:
  "a = [] \<or> last a = NL \<Longrightarrow> readlines (a @ r) = readlines a @ readlines r"
proof (cases "a = []")
  case True
  then show ?thesis by simp
next
  case False
  assume "a = [] \<or> last a = NL"
  then have "a = butlast a @ [NL]" using False by (metis append_butlast_last_id)
  then obtain a' where a: "a = a' @ [NL]" ..
  show ?thesis using readlines_append_NL[of a' r] by (simp add: a)
qed

lemma readlines_insert_line:
  assumes "a = [] \<or> last a = NL" and "terminated bad \<or> (unterminated bad \<and> b = [])"
  shows "readlines (a @ bad @ b) = readlines a @ bad # readlines b"
proof -
  from assms(2) have "readlines (bad @ b) = bad # readlines b"
  proof
    assume "terminated bad"
    then show ?thesis by (rule readlines_terminated)
  next
    assume "unterminated bad \<and> b = []"
    then show ?thesis by (simp add: unterminated_def readlines_unterminated)
  qed
  then show ?thesis using assms(1) by (simp add: readlines_append)
qed

lemma map_filter_skip:
  "f x = None \<Longrightarrow> List.map_filter f (xs @ x # ys) = List.map_filter f (xs @ ys)"
  by (simp add: map_filter_append_eq map_filter_Cons)

lemma line_number_malformed:
  "int_py (str_split TAB l ! 0) = Inl ValueError \<Longrightarrow> line_number l = None"
  by (simp add: line_number_def hd_conv_nth)

lemma line_entry_malformed:
  "length (str_split TAB (strip l)) < 4 \<or> int_py (str_split TAB (strip l) ! 0) = Inl ValueError
     \<Longrightarrow> line_entry l = None"
  by (auto simp: line_entry_def Let_def)

lemma map_filter_without_line:
  assumes "fs p = Present r w (a @ bad @ b)"
    and "a = [] \<or> last a = NL"
    and "terminated bad \<or> (unterminated bad \<and> b = [])"
    and "f bad = None"
  shows "List.map_filter f (file_lines fs q)
     = List.map_filter f (file_lines (fs(p := Present r w (a @ b))) q)"
proof (cases "q = p")
  case True
  have 1: "readlines (a @ bad @ b) = readlines a @ bad # readlines b"
    using assms(2,3) by (rule readlines_insert_line)
  have 2: "readlines (a @ b) = readlines a @ readlines b"
    using assms(2) by (rule readlines_append)
  show ?thesis
    using True assms(1)
    by (cases r) (simp_all add: file_lines_def 1 2 map_filter_skip[of f bad, OF assms(4)])
next
  case False
  then show ?thesis by (simp add: file_lines_def)
qed

text \<open>
  A line that a scan rejects is skipped by itself: the scan returns what it returns on
  the file without the line, so the lines before and after it count as ever. The line
  \<open>bad\<close> stands in a file between the text \<open>a\<close> before it and the text \<open>b\<close> after
  it; it ends with its line feed or is the last line. Numbering rejects it when
  \<^verbatim>\<open>int\<close> raises \<^verbatim>\<open>ValueError\<close> on the first field of the line; reading rejects it when
  the stripped line has fewer than four fields or \<^verbatim>\<open>int\<close> raises \<^verbatim>\<open>ValueError\<close> on the
  first of them. The two statements are independent: a line with a number and two more
  fields counts for numbering and is skipped by reading.
\<close>

lemma numbering_skips_rejected_line:
  assumes "fs p = Present r w (a @ bad @ b)"
    and "a = [] \<or> last a = NL"
    and "terminated bad \<or> (unterminated bad \<and> b = [])"
    and "int_py (str_split TAB bad ! 0) = Inl ValueError"
  shows "get_next_call_number m fs = get_next_call_number m (fs(p := Present r w (a @ b)))"
proof -
  have n: "line_number bad = None" using assms(4) by (rule line_number_malformed)
  note mf = map_filter_without_line[where fs = fs and p = p and a = a and bad = bad
      and b = b and f = line_number, OF assms(1-3) n]
  show ?thesis
    by (rule get_next_call_number_cong) (simp only: seen_numbers_def mf[symmetric])
qed

lemma reading_skips_rejected_line:
  assumes "fs p = Present r w (a @ bad @ b)"
    and "a = [] \<or> last a = NL"
    and "terminated bad \<or> (unterminated bad \<and> b = [])"
    and "length (str_split TAB (strip bad)) < 4
         \<or> int_py (str_split TAB (strip bad) ! 0) = Inl ValueError"
  shows "read_log m fs = read_log m (fs(p := Present r w (a @ b)))"
proof -
  have e: "line_entry bad = None" using assms(4) by (rule line_entry_malformed)
  note mf = map_filter_without_line[where fs = fs and p = p and a = a and bad = bad
      and b = b and f = line_entry, OF assms(1-3) e]
  show ?thesis
    by (rule read_log_cong) (simp only: parsed_entries_def mf[symmetric])
qed

text \<open>
  No exception leaves the loop over the lines of a file, whatever the lines are, so
  the handler around a file never drops the rest of it.
\<close>

lemma scans_raise_nothing:
  "snd (number_lines max_number lines) = None \<and> snd (read_lines st lines) = None"
  by (simp add: number_lines_no_exception read_lines_no_exception)

text \<open>The example of the spec: the line \<^verbatim>\<open>abc<TAB>bad<TAB>data\<close> beside a valid line.\<close>

lemma malformed_example:
  "read_log logger_py example_fs
     = read_log logger_py (example_fs(''program_log.txt'' := Present True True
         (row [''5'', ''2025-01-01'', ''10:00:00'', ''old.py'', ''/p/old.py''] @ [])))
   \<and> map filename (read_log logger_py example_fs) = [''main.py'', ''old.py'']"
proof -
  let ?a = "row [''5'', ''2025-01-01'', ''10:00:00'', ''old.py'', ''/p/old.py'']"
  let ?bad = "row [''abc'', ''bad'', ''data'']"
  have 1: "example_fs ''program_log.txt'' = Present True True (?a @ ?bad @ [])"
    by (simp add: example_fs_def legacy_text_def)
  have 2: "?a = [] \<or> last ?a = NL" by code_simp
  have 3: "terminated ?bad \<or> (unterminated ?bad \<and> [] = ([]::string))" by code_simp
  have 5: "length (str_split TAB (strip ?bad)) < 4
      \<or> int_py (str_split TAB (strip ?bad) ! 0) = Inl ValueError" by code_simp
  have v: "map filename (read_log logger_py example_fs) = [''main.py'', ''old.py'']"
    by code_simp
  note t = reading_skips_rejected_line[where fs = example_fs and p = "''program_log.txt''"
      and a = ?a and bad = ?bad and b = "[]" and m = logger_py, OF 1 2 3 5]
  show ?thesis by (rule conjI[OF t v])
qed

text \<open>
  \<^bold>\<open>C7.\<close> Malformed lines, those with a first field that is no number, should be
  skipped in numbering and in reading. The two scans do not take the same first
  field: \<^verbatim>\<open>get_next_call_number\<close> splits the line as it stands, \<^verbatim>\<open>read_log\<close> strips it
  first. The legacy line below starts with a tab, so its first field is empty and
  \<^verbatim>\<open>int\<close> raises \<^verbatim>\<open>ValueError\<close> on it. Numbering skips the line and returns 1; reading
  does not skip it and shows an entry with call number 9.
\<close>

theorem tab_led_line_read_as_entry:
  "file_lines shifted_fs ''program_log.txt''
     = [TAB # row [''9'', ''2025-01-01'', ''10:00:00'', ''old.py'', ''/p/old.py'']]
   \<and> int_py (str_split TAB
        (TAB # row [''9'', ''2025-01-01'', ''10:00:00'', ''old.py'', ''/p/old.py'']) ! 0)
     = Inl ValueError
   \<and> get_next_call_number logger_py shifted_fs = 1
   \<and> map number (read_log logger_py shifted_fs) = [9]
   \<and> map filename (read_log logger_py shifted_fs) = [''old.py'']"
  by code_simp

subsection \<open>Statistics on the merged view\<close>

lemma number_without_path [simp]: "number (without_path e) = number e"
  by (simp add: without_path_def)

lemma filename_without_path [simp]: "filename (without_path e) = filename e"
  by (simp add: without_path_def)

lemma sort_reverse_without_path:
  "sort_reverse number (map without_path xs) = map without_path (sort_reverse number xs)"
  by (simp add: sort_reverse_map)

lemma read_log_Nil: "read_log m fs = [] \<longleftrightarrow> collect_entries m fs = []"
  by (simp add: read_log_eq)

lemma read_log_descending: "sorted (rev (map number (read_log m fs)))"
  by (simp add: read_log_eq sort_reverse_descending)

lemma get_log_stats_eq:
  "get_log_stats m fs =
     (if read_log m fs = [] then NoData
      else Stats (length (read_log m fs))
             (without_path (hd (read_log m fs)))
             (without_path (last (read_log m fs)))
             (take 5 (sort_reverse snd
                (foldl count_program [] (map filename (read_log m fs))))))"
proof (cases "collect_entries m fs = []")
  case True
  then show ?thesis
    by (simp add: get_log_stats_def stats_entries_eq read_log_Nil)
next
  case False
  then have ne: "sort_reverse number (collect_entries m fs) \<noteq> []" by simp
  have f: "(\<lambda>x. filename (without_path x)) = filename" by (rule ext) simp
  show ?thesis
    using False ne
    by (simp add: get_log_stats_def stats_entries_eq read_log_Nil Let_def
        sort_reverse_without_path read_log_eq hd_map last_map o_def f)
qed

text \<open>
  \<^bold>\<open>C2\<close> (as amended). \<^verbatim>\<open>get_log_stats\<close> of \<^verbatim>\<open>src/logger.py\<close> works on the merged view:
  with no entry in it the result is the notice that there is no data and nothing is
  indexed; otherwise the count is the length of the view, the newest and the oldest
  entry are its first and its last element (without their paths), and the view is
  sorted by call number, largest first. (\<^verbatim>\<open>get_log_stats\<close> of \<^verbatim>\<open>log.py\<close> is another
  function, \<open>get_log_stats_log_py\<close>: it reads the primary file alone.)
\<close>

theorem get_log_stats_on_merged_view:
  "get_log_stats m fs =
     (if read_log m fs = [] then NoData
      else Stats (length (read_log m fs))
             (without_path (hd (read_log m fs)))
             (without_path (last (read_log m fs)))
             (take 5 (sort_reverse snd
                (foldl count_program [] (map filename (read_log m fs))))))
   \<and> sorted (rev (map number (read_log m fs)))"
  by (rule conjI[OF get_log_stats_eq read_log_descending])

theorem get_log_stats_on_merged_view_witness:
  "map number (read_log logger_py example_fs) = [7, 5]
   \<and> get_log_stats logger_py example_fs = Stats 2
        \<lparr>number = 7, date = ''2025-10-08'', time = ''14:30:25'', filename = ''main.py''\<rparr>
        \<lparr>number = 5, date = ''2025-01-01'', time = ''10:00:00'', filename = ''old.py''\<rparr>
        [(''main.py'', 1), (''old.py'', 1)]"
proof -
  have v: "read_log logger_py example_fs =
     [\<lparr>number = 7, date = ''2025-10-08'', time = ''14:30:25'', filename = ''main.py'',
        filepath = ''/p/main.py''\<rparr>,
      \<lparr>number = 5, date = ''2025-01-01'', time = ''10:00:00'', filename = ''old.py'',
        filepath = ''/p/old.py''\<rparr>]"
    by code_simp
  have c: "take 5 (sort_reverse snd (count_program (count_program [] ''main.py'') ''old.py''))
      = [(''main.py'', 1), (''old.py'', 1)]"
    by code_simp
  show ?thesis
    using conjunct1[OF get_log_stats_on_merged_view[of logger_py example_fs]]
    by (simp add: v c without_path_def)
qed

text \<open>
  The claim as stated fails on \<^verbatim>\<open>log.py\<close>: with one entry in its primary file and
  another in the log of the \<^verbatim>\<open>sub\<close> directory, the merged view has two entries and
  the statistics count one.
\<close>

theorem get_log_stats_log_py_counterexample:
  "length (read_log log_py log_py_fs) = 2
   \<and> get_log_stats_log_py log_py_fs
     = StatsLog 1 (Some ((''2025-10-08'', ''14:30:25''), (''2025-10-08'', ''14:30:25'')))
         [(''b.py'', 1)]"
  by code_simp

subsection \<open>The caller\<close>

lemma basename_no_slash: "CHR ''/'' \<notin> set (basename p)"
proof -
  have "\<forall>c \<in> set (takeWhile (\<lambda>c. c \<noteq> CHR ''/'') (rev p)). c \<noteq> CHR ''/''"
    by (auto dest: set_takeWhileD)
  then show ?thesis by (auto simp: basename_def)
qed

lemma basename_suffix: "\<exists>d. p = d @ basename p \<and> (d = [] \<or> last d = CHR ''/'')"
proof -
  let ?P = "\<lambda>c. c \<noteq> CHR ''/''"
  let ?d = "rev (dropWhile ?P (rev p))"
  have "rev (takeWhile ?P (rev p) @ dropWhile ?P (rev p)) = rev (rev p)"
    by (simp only: takeWhile_dropWhile_id)
  then have 1: "p = ?d @ basename p" by (simp only: basename_def rev_append rev_rev_ident)
  have 2: "?d = [] \<or> last ?d = CHR ''/''"
  proof (cases "dropWhile ?P (rev p)")
    case Nil
    then show ?thesis by simp
  next
    case (Cons c cs)
    then have "c = CHR ''/''" using hd_dropWhile[of ?P "rev p"] by auto
    then show ?thesis using Cons by simp
  qed
  show ?thesis using 1 2 by blast
qed

text \<open>
  \<^bold>\<open>C8\<close> (as amended). When \<^verbatim>\<open>get_caller_info\<close> has a frame of its own and that frame
  has a caller (it is called from \<^verbatim>\<open>log_execution\<close> on an interpreter with stack
  frames), it raises nothing: with no frame above its caller it returns the module's
  name for an unknown caller twice, \<^verbatim>\<open>("Unknown", "Unknown")\<close> in \<^verbatim>\<open>src/logger.py\<close> and
  \<^verbatim>\<open>("Unbekannt", "Unbekannt")\<close> in \<^verbatim>\<open>log.py\<close>; with a frame above, it returns the base
  name of that frame's file (what follows the last slash of the path) and the path.
  The function takes and returns no file system and no clock: it has no effect.
\<close>

theorem get_caller_info_result:
  "get_caller_info m (Some (Frame own (Some (Frame caller up)))) =
     (case up of
        None \<Rightarrow> Inr (UNKNOWN m, UNKNOWN m)
      | Some fr \<Rightarrow> Inr (basename (co_filename fr), co_filename fr))
   \<and> UNKNOWN logger_py = ''Unknown'' \<and> UNKNOWN log_py = ''Unbekannt''
   \<and> CHR ''/'' \<notin> set (basename p)
   \<and> (\<exists>d. p = d @ basename p \<and> (d = [] \<or> last d = CHR ''/''))"
  using basename_no_slash[of p] basename_suffix[of p]
  by (simp add: get_caller_info_def logger_py_def log_py_def Let_def split: option.splits)

theorem get_caller_info_result_witness:
  "get_caller_info logger_py (currentframe example_run) = Inr (''main.py'', ''/p/main.py'')
   \<and> get_caller_info logger_py
        (Some (Frame ''/p/src/logger.py'' (Some (Frame ''/p/src/logger.py'' None))))
      = Inr (''Unknown'', ''Unknown'')"
proof -
  have b: "basename ''/p/main.py'' = ''main.py''" by code_simp
  have 1: "get_caller_info logger_py (currentframe example_run) = Inr (''main.py'', ''/p/main.py'')"
    using conjunct1[OF get_caller_info_result[of logger_py "''/p/src/logger.py''"
        "''/p/src/logger.py''" "Some (Frame ''/p/main.py'' None)"]]
    by (simp add: example_run_def b)
  have 2: "get_caller_info logger_py
        (Some (Frame ''/p/src/logger.py'' (Some (Frame ''/p/src/logger.py'' None))))
      = Inr (''Unknown'', ''Unknown'')"
    using get_caller_info_result[of logger_py "''/p/src/logger.py''" "''/p/src/logger.py''" None]
    by simp
  show ?thesis by (rule conjI[OF 1 2])
qed

text \<open>
  The claim as stated fails twice. In \<^verbatim>\<open>log.py\<close> the pair for an unknown caller is not
  \<^verbatim>\<open>("Unknown", "Unknown")\<close>. And where the caller cannot be determined because
  \<^verbatim>\<open>get_caller_info\<close> itself has no calling frame, or the interpreter gives it no frame
  at all, \<^verbatim>\<open>frame.f_back.f_back\<close> raises \<^verbatim>\<open>AttributeError\<close>.
\<close>

theorem get_caller_info_counterexample:
  "get_caller_info log_py (Some (Frame ''/p/log.py'' (Some (Frame ''/p/log.py'' None))))
     = Inr (''Unbekannt'', ''Unbekannt'')
   \<and> get_caller_info logger_py (Some (Frame ''/p/src/logger.py'' None)) = Inl AttributeError
   \<and> get_caller_info logger_py None = Inl AttributeError"
  by (simp add: get_caller_info_def log_py_def)

subsection \<open>The most frequent programs\<close>

lemma first_occurrences_Nil [simp]: "first_occurrences [] = []"
  by (simp add: first_occurrences_def)

lemma first_occurrences_snoc:
  "first_occurrences (xs @ [x]) =
     (if x \<in> set xs then first_occurrences xs else first_occurrences xs @ [x])"
  by (simp add: first_occurrences_def)

lemma set_first_occurrences [simp]: "set (first_occurrences xs) = set xs"
  by (simp add: first_occurrences_def)

lemma distinct_first_occurrences [simp]: "distinct (first_occurrences xs)"
  by (simp add: first_occurrences_def)

lemma dict_get_map:
  "dict_get (map (\<lambda>p. (p, g p)) ks) n d = (if n \<in> set ks then g n else d)"
  by (induction ks) (auto simp: dict_get_def)

lemma dict_set_map_notin:
  "n \<notin> set ks \<Longrightarrow> dict_set (map (\<lambda>p. (p, g p)) ks) n v = map (\<lambda>p. (p, g p)) ks @ [(n, v)]"
  by (induction ks) auto

lemma dict_set_map_in:
  "n \<in> set ks \<Longrightarrow> distinct ks \<Longrightarrow>
     dict_set (map (\<lambda>p. (p, g p)) ks) n v = map (\<lambda>p. (p, if p = n then v else g p)) ks"
proof (induction ks)
  case Nil
  then show ?case by simp
next
  case (Cons k ks)
  show ?case
  proof (cases "k = n")
    case True
    then have "n \<notin> set ks" using Cons.prems by simp
    then have "map (\<lambda>p. (p, g p)) ks = map (\<lambda>p. (p, if p = n then v else g p)) ks"
      by (intro map_cong) auto
    then show ?thesis using True by simp
  next
    case False
    then show ?thesis using Cons by simp
  qed
qed

lemma count_program_grouped:
  "count_program (grouped_counts ns) n = grouped_counts (ns @ [n])"
proof (cases "n \<in> set ns")
  case True
  have "map (\<lambda>p. (p, if p = n then Suc (count_list ns n) else count_list ns p)) (first_occurrences ns)
      = map (\<lambda>p. (p, count_list (ns @ [n]) p)) (first_occurrences ns)"
    by (intro map_cong) auto
  then show ?thesis using True
    by (simp add: count_program_def grouped_counts_def dict_get_map dict_set_map_in
        first_occurrences_snoc)
next
  case False
  have "map (\<lambda>p. (p, count_list ns p)) (first_occurrences ns)
      = map (\<lambda>p. (p, count_list (ns @ [n]) p)) (first_occurrences ns)"
    using False by (intro map_cong) auto
  then show ?thesis using False
    by (simp add: count_program_def grouped_counts_def dict_get_map dict_set_map_notin
        first_occurrences_snoc count_list_0_iff)
qed

lemma foldl_count_program: "foldl count_program [] ns = grouped_counts ns"
proof (induction ns rule: rev_induct)
  case Nil
  then show ?case by (simp add: grouped_counts_def)
next
  case (snoc n ns)
  then show ?case by (simp add: count_program_grouped)
qed

text \<open>
  \<^bold>\<open>C5\<close> (as amended). The five programs \<^verbatim>\<open>get_log_stats\<close> of \<^verbatim>\<open>src/logger.py\<close> prints
  are the first five of a ranking of the merged view: its entries grouped by file
  name with the number of entries of each name; the ranking holds the same pairs,
  with the counts in descending order, and pairs with the same count stand as the
  grouping has them, that is in the order in which their names first occur in the
  merged view \<^emph>\<open>as sorted\<close>, largest call number first (the counting loop runs after
  the sort; no further key decides a tie).
\<close>

theorem top_programs_ranking:
  assumes "read_log m fs \<noteq> []"
  shows "let names = map filename (read_log m fs);
             ranking = sort_reverse snd (grouped_counts names)
         in top_programs (get_log_stats m fs) = take 5 ranking
          \<and> length (top_programs (get_log_stats m fs)) \<le> 5
          \<and> mset ranking = mset (grouped_counts names)
          \<and> sorted (rev (map snd ranking))
          \<and> (\<forall>c. filter (\<lambda>e. snd e = c) ranking = filter (\<lambda>e. snd e = c) (grouped_counts names))"
  using assms
  by (simp add: Let_def get_log_stats_eq foldl_count_program sort_reverse_descending
      sort_reverse_stable)

theorem top_programs_ranking_witness:
  "map filename (read_log logger_py three_fs) = [''a.x'', ''b.x'', ''a.x'']
   \<and> top_programs (get_log_stats logger_py three_fs) = [(''a.x'', 2), (''b.x'', 1)]"
proof -
  have v: "map filename (read_log logger_py three_fs) = [''a.x'', ''b.x'', ''a.x'']"
    by code_simp
  then have ne: "read_log logger_py three_fs \<noteq> []" by auto
  have r: "take 5 (sort_reverse snd (grouped_counts [''a.x'', ''b.x'', ''a.x'']))
      = [(''a.x'', 2), (''b.x'', 1)]"
    by code_simp
  have "top_programs (get_log_stats logger_py three_fs)
      = take 5 (sort_reverse snd (grouped_counts (map filename (read_log logger_py three_fs))))"
    using top_programs_ranking[OF ne] by (simp add: Let_def)
  then have "top_programs (get_log_stats logger_py three_fs) = [(''a.x'', 2), (''b.x'', 1)]"
    by (simp only: v r)
  then show ?thesis using v by (intro conjI)
qed

text \<open>
  The claim as stated has ties broken by the order of the merge scan. The scan of
  \<^verbatim>\<open>src/logger.py\<close> reads the legacy log in the root directory first, so it meets the
  older \<^verbatim>\<open>a.x\<close> before the newer \<^verbatim>\<open>b.x\<close>; both ran once, and \<^verbatim>\<open>b.x\<close> is printed first.
\<close>

theorem top_programs_tie_counterexample:
  "map filename (collect_entries logger_py tie_fs) = [''a.x'', ''b.x'']
   \<and> top_programs (get_log_stats logger_py tie_fs) = [(''b.x'', 1), (''a.x'', 1)]"
  by code_simp

subsection \<open>The fields of a new entry\<close>

lemma well_configured_logger_py: "well_configured logger_py"
  by (simp add: well_configured_def logger_py_def terminated_def startswith_def butlast_append)

lemma well_configured_log_py: "well_configured log_py"
  by (simp add: well_configured_def log_py_def terminated_def startswith_def butlast_append)

text \<open>The strings of the clock and of the call number hold no tab and no line feed.\<close>

lemma field_char_plain: "field_char c \<Longrightarrow> c \<noteq> TAB \<and> c \<noteq> NL \<and> c \<noteq> CHR ''#'' \<and> \<not> isspace c"
  by (auto simp: field_char_def is_digit_def isspace_def)

lemma str_nat_field: "list_all field_char (str_nat n)"
  using str_nat_digits[of n] by (rule list_all_weaken) (simp add: field_char_def)

lemma field_char_zero: "field_char CHR ''0''"
  by (simp add: field_char_def is_digit_def)

lemma zfill_field: "list_all field_char s \<Longrightarrow> list_all field_char (zfill w s)"
  using field_char_zero by (auto simp: zfill_def list_all_iff)

lemma field_char_dash: "field_char CHR ''-''" "field_char CHR '':''"
  by (simp_all add: field_char_def)

lemma strftime_date_field: "list_all field_char (strftime_date d)"
  by (simp add: strftime_date_def zfill_field str_nat_field field_char_dash)

lemma strftime_time_field: "list_all field_char (strftime_time d)"
  by (simp add: strftime_time_def zfill_field str_nat_field field_char_dash)

lemma str_int_field: "list_all field_char (str_int i)"
  using str_nat_field[of "nat (- i)"] str_nat_field[of "nat i"]
  by (simp add: str_int_def field_char_dash)

lemma field_no_tab: "list_all field_char s \<Longrightarrow> TAB \<notin> set s \<and> NL \<notin> set s"
  by (auto simp: list_all_iff dest: field_char_plain)

lemma str_int_hd: "field_char (hd (str_int i))"
  using str_int_field[of i] str_int_not_Nil[of i] by (cases "str_int i") auto

subsection \<open>The line of a new entry\<close>

lemma strip_empty_all_space: "strip s = [] \<Longrightarrow> list_all isspace s"
proof -
  assume "strip s = []"
  then have "dropWhile isspace (rev (dropWhile isspace s)) = []" by (simp add: strip_def)
  then have "\<forall>c \<in> set (dropWhile isspace s). isspace c"
    by (simp add: dropWhile_eq_Nil_conv)
  then have "dropWhile isspace s = []"
    by (metis hd_dropWhile hd_in_set)
  then show ?thesis by (simp add: dropWhile_eq_Nil_conv list_all_iff)
qed

lemma strip_not_Nil: "s \<noteq> [] \<Longrightarrow> \<not> isspace (hd s) \<Longrightarrow> strip s \<noteq> []"
  using strip_empty_all_space[of s] by (cases s) auto

lemma format_entry_hd: "hd (format_entry n d t name path) = hd (str_int n)"
  by (simp add: format_entry_def)

lemma format_entry_not_Nil [simp]: "format_entry n d t name path \<noteq> []"
  by (simp add: format_entry_def)

lemma format_entry_not_comment: "\<not> startswith (format_entry n d t name path) ''#''"
proof -
  have "hd (format_entry n d t name path) \<noteq> CHR ''#''"
    using str_int_hd[of n] by (auto simp: format_entry_hd dest: field_char_plain)
  then show ?thesis
    by (cases "format_entry n d t name path") (auto simp: startswith_def)
qed

lemma format_entry_not_blank: "strip (format_entry n d t name path) \<noteq> []"
proof (rule strip_not_Nil)
  show "format_entry n d t name path \<noteq> []" by simp
  show "\<not> isspace (hd (format_entry n d t name path))"
    using str_int_hd[of n] by (auto simp: format_entry_hd dest: field_char_plain)
qed

lemma format_entry_terminated:
  assumes "NL \<notin> set d" "NL \<notin> set t" "NL \<notin> set name" "NL \<notin> set path"
  shows "terminated (format_entry n d t name path)"
proof -
  have "NL \<notin> set (str_int n)" using field_no_tab[OF str_int_field] by simp
  then show ?thesis using assms
    by (simp add: terminated_def format_entry_def butlast_append)
qed

lemma format_entry_line_number: "line_number (format_entry n d t name path) = Some n"
proof -
  have tab: "TAB \<notin> set (str_int n)" using field_no_tab[OF str_int_field] by simp
  have "format_entry n d t name path = str_int n @ TAB # (d @ [TAB] @ t @ [TAB] @ name @ [TAB] @ path @ [NL])"
    by (simp add: format_entry_def)
  then have "hd (str_split TAB (format_entry n d t name path)) = str_int n"
    using str_split_append[OF tab] by simp
  then show ?thesis
    using format_entry_not_comment[of n d t name path] format_entry_not_blank[of n d t name path]
    by (simp add: line_number_def int_py_str_int)
qed

lemma format_entry_line_entry:
  assumes "TAB \<notin> set d" "TAB \<notin> set t" "TAB \<notin> set name"
    and "path \<noteq> []" "\<not> isspace (last path)"
  shows "line_entry (format_entry n d t name path) =
     Some \<lparr>number = n, date = d, time = t, filename = name,
            filepath = hd (str_split TAB path)\<rparr>"
proof -
  let ?body = "str_int n @ TAB # d @ TAB # t @ TAB # name @ TAB # path"
  have tab: "TAB \<notin> set (str_int n)" using field_no_tab[OF str_int_field] by simp
  have e: "format_entry n d t name path = ?body @ [NL]" by (simp add: format_entry_def)
  have hd: "\<not> isspace (hd ?body)"
    using str_int_hd[of n] by (auto simp: hd_append dest: field_char_plain)
  have last: "\<not> isspace (last ?body)" using assms(4,5) by simp
  have strip: "strip (format_entry n d t name path) = ?body"
    unfolding e by (rule strip_line) (use hd last in simp_all)
  have split: "str_split TAB ?body = str_int n # d # t # name # str_split TAB path"
    using tab assms(1-3) by (simp add: str_split_append)
  obtain f fs where p: "str_split TAB path = f # fs"
    by (cases "str_split TAB path") auto
  show ?thesis
    using format_entry_not_comment[of n d t name path] format_entry_not_blank[of n d t name path]
    by (simp add: line_entry_def strip split p int_py_str_int Let_def)
qed

lemma comment_line_number: "startswith l ''#'' \<Longrightarrow> line_number l = None"
  by (simp add: line_number_def)

lemma comment_line_entry: "startswith l ''#'' \<Longrightarrow> line_entry l = None"
  by (simp add: line_entry_def)

subsection \<open>The primary file after an insertion\<close>

lemma insert_entry_at_top_success:
  assumes "fst (insert_entry_at_top m e fs) = None"
  shows "snd (insert_entry_at_top m e fs) =
     fs(LOG_FILE m := Present True True
        (concat (filter (\<lambda>line. startswith line ''#'') (primary_lines m fs)) @ e
         @ concat (filter (\<lambda>line. \<not> startswith line ''#'') (primary_lines m fs))))"
proof (cases "fs (LOG_FILE m)")
  case (Absent c)
  then show ?thesis using assms
    by (cases c)
       (simp_all add: insert_entry_at_top_def path_exists_def create_log_file_header_def
          open_write_def open_readlines_def primary_lines_def Let_def)
next
  case (Present r w t)
  then show ?thesis using assms
    by (cases r; cases w)
       (simp_all add: insert_entry_at_top_def path_exists_def create_log_file_header_def
          open_write_def open_readlines_def primary_lines_def Let_def)
qed

lemma insert_entry_at_top_failure:
  "fst (insert_entry_at_top m e fs) \<noteq> None \<Longrightarrow> snd (insert_entry_at_top m e fs) = fs"
  by (cases "fs (LOG_FILE m)")
     (auto simp: insert_entry_at_top_def path_exists_def create_log_file_header_def
        open_write_def open_readlines_def Let_def split: if_splits)

lemma insert_entry_at_top_success_iff:
  "fst (insert_entry_at_top m e fs) = None \<longleftrightarrow>
     (case fs (LOG_FILE m) of Absent c \<Rightarrow> c | Present r w t \<Rightarrow> r \<and> w)"
  by (cases "fs (LOG_FILE m)")
     (auto simp: insert_entry_at_top_def path_exists_def create_log_file_header_def
        open_write_def open_readlines_def Let_def split: if_splits)

lemma lines_wf_mem: "lines_wf ls \<Longrightarrow> l \<in> set ls \<Longrightarrow> terminated l \<or> unterminated l"
  by (induction ls rule: lines_wf.induct) auto

lemma terminated_if_last_NL:
  "l \<in> set (readlines t) \<Longrightarrow> last l = NL \<Longrightarrow> terminated l"
proof -
  assume l: "l \<in> set (readlines t)" and n: "last l = NL"
  from lines_wf_mem[OF lines_wf_readlines l] show ?thesis
  proof
    assume "terminated l" then show ?thesis .
  next
    assume "unterminated l"
    then have "l \<noteq> [] \<and> NL \<notin> set l" by (simp add: unterminated_def)
    then show ?thesis using n last_in_set by metis
  qed
qed

lemma readlines_HEADER:
  "well_configured m \<Longrightarrow> readlines (concat (HEADER m)) = HEADER m"
proof -
  assume "well_configured m"
  then have "list_all terminated (HEADER m)"
    by (simp add: well_configured_def list_all_iff)
  from readlines_concat_terminated[OF this, of "[]"] show ?thesis by simp
qed

text \<open>The lines of the primary file when \<^verbatim>\<open>insert_entry_at_top\<close> has succeeded.\<close>

lemma primary_lines_file_lines:
  "fst (insert_entry_at_top m e fs) = None \<Longrightarrow> path_exists fs (LOG_FILE m)
     \<Longrightarrow> primary_lines m fs = file_lines fs (LOG_FILE m)"
  by (cases "fs (LOG_FILE m)")
     (auto simp: insert_entry_at_top_success_iff primary_lines_def file_lines_def path_exists_def)

lemma primary_comments_terminated:
  assumes ok: "fst (insert_entry_at_top m e fs) = None"
    and wc: "well_configured m"
    and ct: "comment_lines_terminated fs (LOG_FILE m)"
  shows "list_all terminated (filter (\<lambda>line. startswith line ''#'') (primary_lines m fs))"
proof (cases "fs (LOG_FILE m)")
  case (Absent c)
  then have "primary_lines m fs = HEADER m"
    using readlines_HEADER[OF wc] by (simp add: primary_lines_def)
  then show ?thesis using wc by (simp add: well_configured_def list_all_iff)
next
  case (Present r w t)
  then have r: "r" using ok by (simp add: insert_entry_at_top_success_iff)
  have pl: "primary_lines m fs = readlines t" using Present by (simp add: primary_lines_def)
  have "\<forall>l \<in> set (readlines t). startswith l ''#'' \<longrightarrow> last l = NL"
    using ct Present r by (simp add: comment_lines_terminated_def file_lines_def list_all_iff)
  then show ?thesis
    by (auto simp: pl list_all_iff intro: terminated_if_last_NL)
qed

lemma file_lines_after_insert:
  assumes ok: "fst (insert_entry_at_top m e fs) = None"
    and wc: "well_configured m"
    and ct: "comment_lines_terminated fs (LOG_FILE m)"
    and te: "terminated e"
  shows "file_lines (snd (insert_entry_at_top m e fs)) (LOG_FILE m) =
     filter (\<lambda>line. startswith line ''#'') (primary_lines m fs) @ e
       # filter (\<lambda>line. \<not> startswith line ''#'') (primary_lines m fs)"
proof -
  let ?H = "filter (\<lambda>line. startswith line ''#'') (primary_lines m fs)"
  let ?D = "filter (\<lambda>line. \<not> startswith line ''#'') (primary_lines m fs)"
  have wf: "lines_wf (primary_lines m fs)"
    by (cases "fs (LOG_FILE m)") (simp_all add: primary_lines_def lines_wf_readlines)
  have D: "readlines (concat ?D) = ?D"
    by (rule readlines_concat_wf) (rule lines_wf_filter[OF wf])
  have "readlines (concat ?H @ e @ concat ?D) = ?H @ readlines (e @ concat ?D)"
    by (rule readlines_concat_terminated) (rule primary_comments_terminated[OF ok wc ct])
  also have "\<dots> = ?H @ e # ?D" using readlines_terminated[OF te] D by simp
  finally show ?thesis
    by (simp add: insert_entry_at_top_success[OF ok] file_lines_def)
qed

lemma file_lines_other_after_insert:
  "q \<noteq> LOG_FILE m \<Longrightarrow> file_lines (snd (insert_entry_at_top m e fs)) q = file_lines fs q"
proof (cases "fst (insert_entry_at_top m e fs) = None")
  case True
  assume "q \<noteq> LOG_FILE m"
  then show ?thesis by (simp add: insert_entry_at_top_success[OF True] file_lines_def)
next
  case False
  then show ?thesis by (simp add: insert_entry_at_top_failure)
qed

subsection \<open>The scans after an insertion\<close>

lemma set_option_eq: "set_option x = {y. x = Some y}"
  by (cases x) auto

lemma set_map_filter_after_insert:
  assumes ok: "fst (insert_entry_at_top m e fs) = None"
    and wc: "well_configured m"
    and ct: "comment_lines_terminated fs (LOG_FILE m)"
    and te: "terminated e"
    and cm: "\<And>l. startswith l ''#'' \<Longrightarrow> f l = None"
  shows "set (List.map_filter f (file_lines (snd (insert_entry_at_top m e fs)) (LOG_FILE m)))
     = set (List.map_filter f (file_lines fs (LOG_FILE m))) \<union> set_option (f e)"
proof -
  let ?L = "primary_lines m fs"
  have split: "set (filter (\<lambda>line. startswith line ''#'') ?L)
      \<union> set (filter (\<lambda>line. \<not> startswith line ''#'') ?L) = set ?L"
    by auto
  have new: "set (List.map_filter f (file_lines (snd (insert_entry_at_top m e fs)) (LOG_FILE m)))
      = set (List.map_filter f ?L) \<union> set_option (f e)"
    unfolding file_lines_after_insert[OF ok wc ct te] set_map_filter set_option_eq
    using split by auto
  have old: "set (List.map_filter f ?L) = set (List.map_filter f (file_lines fs (LOG_FILE m)))"
  proof (cases "fs (LOG_FILE m)")
    case (Absent c)
    then have "?L = HEADER m" using readlines_HEADER[OF wc] by (simp add: primary_lines_def)
    moreover have "\<forall>l \<in> set (HEADER m). f l = None"
      using wc cm by (simp add: well_configured_def list_all_iff)
    ultimately show ?thesis using Absent by (auto simp: set_map_filter file_lines_def)
  next
    case (Present r w t)
    then have "path_exists fs (LOG_FILE m)" by (simp add: path_exists_def)
    then show ?thesis using primary_lines_file_lines[OF ok] by simp
  qed
  show ?thesis using new old by simp
qed

lemma set_seen_numbers:
  "set (seen_numbers m fs) =
     (\<Union>p \<in> set (LOG_FILES m). set (List.map_filter line_number (file_lines fs p)))"
  by (simp add: seen_numbers_def)

lemma set_parsed_entries:
  "set (parsed_entries m fs) =
     (\<Union>p \<in> set (LOG_FILES m). set (List.map_filter line_entry (file_lines fs p)))"
  by (simp add: parsed_entries_def)

lemma UN_after_insert:
  assumes "P \<in> A" and "\<And>q. q \<in> A \<Longrightarrow> q \<noteq> P \<Longrightarrow> g' q = g q" and "g' P = g P \<union> X"
  shows "(\<Union>q \<in> A. g' q) = (\<Union>q \<in> A. g q) \<union> X"
proof (rule set_eqI)
  fix x
  show "x \<in> (\<Union>q \<in> A. g' q) \<longleftrightarrow> x \<in> (\<Union>q \<in> A. g q) \<union> X"
  proof
    assume "x \<in> (\<Union>q \<in> A. g' q)"
    then obtain q where q: "q \<in> A" "x \<in> g' q" by blast
    show "x \<in> (\<Union>q \<in> A. g q) \<union> X"
    proof (cases "q = P")
      case True
      then show ?thesis using q assms(3) by blast
    next
      case False
      then show ?thesis using q assms(2) by blast
    qed
  next
    assume "x \<in> (\<Union>q \<in> A. g q) \<union> X"
    then show "x \<in> (\<Union>q \<in> A. g' q)"
    proof
      assume "x \<in> X"
      then show ?thesis using assms(1,3) by blast
    next
      assume "x \<in> (\<Union>q \<in> A. g q)"
      then obtain q where q: "q \<in> A" "x \<in> g q" by blast
      show ?thesis
      proof (cases "q = P")
        case True
        then show ?thesis using q assms(3) by blast
      next
        case False
        then show ?thesis using q assms(2)[OF q(1) False] by blast
      qed
    qed
  qed
qed

lemma seen_numbers_after_insert:
  assumes ok: "fst (insert_entry_at_top m e fs) = None"
    and wc: "well_configured m"
    and ct: "comment_lines_terminated fs (LOG_FILE m)"
    and te: "terminated e"
  shows "set (seen_numbers m (snd (insert_entry_at_top m e fs)))
     = set (seen_numbers m fs) \<union> set_option (line_number e)"
  unfolding set_seen_numbers
proof (rule UN_after_insert[where P = "LOG_FILE m"])
  show "LOG_FILE m \<in> set (LOG_FILES m)" using wc by (simp add: well_configured_def)
  show "\<And>q. q \<in> set (LOG_FILES m) \<Longrightarrow> q \<noteq> LOG_FILE m \<Longrightarrow>
      set (List.map_filter line_number (file_lines (snd (insert_entry_at_top m e fs)) q))
      = set (List.map_filter line_number (file_lines fs q))"
    by (simp add: file_lines_other_after_insert)
  show "set (List.map_filter line_number (file_lines (snd (insert_entry_at_top m e fs)) (LOG_FILE m)))
      = set (List.map_filter line_number (file_lines fs (LOG_FILE m))) \<union> set_option (line_number e)"
    by (rule set_map_filter_after_insert[OF ok wc ct te]) (rule comment_line_number)
qed

lemma parsed_entries_after_insert:
  assumes ok: "fst (insert_entry_at_top m e fs) = None"
    and wc: "well_configured m"
    and ct: "comment_lines_terminated fs (LOG_FILE m)"
    and te: "terminated e"
  shows "set (parsed_entries m (snd (insert_entry_at_top m e fs)))
     = set (parsed_entries m fs) \<union> set_option (line_entry e)"
  unfolding set_parsed_entries
proof (rule UN_after_insert[where P = "LOG_FILE m"])
  show "LOG_FILE m \<in> set (LOG_FILES m)" using wc by (simp add: well_configured_def)
  show "\<And>q. q \<in> set (LOG_FILES m) \<Longrightarrow> q \<noteq> LOG_FILE m \<Longrightarrow>
      set (List.map_filter line_entry (file_lines (snd (insert_entry_at_top m e fs)) q))
      = set (List.map_filter line_entry (file_lines fs q))"
    by (simp add: file_lines_other_after_insert)
  show "set (List.map_filter line_entry (file_lines (snd (insert_entry_at_top m e fs)) (LOG_FILE m)))
      = set (List.map_filter line_entry (file_lines fs (LOG_FILE m))) \<union> set_option (line_entry e)"
    by (rule set_map_filter_after_insert[OF ok wc ct te]) (rule comment_line_entry)
qed

lemma comment_lines_terminated_after_insert:
  assumes ok: "fst (insert_entry_at_top m e fs) = None"
    and wc: "well_configured m"
    and ct: "comment_lines_terminated fs (LOG_FILE m)"
    and te: "terminated e"
    and nc: "\<not> startswith e ''#''"
  shows "comment_lines_terminated (snd (insert_entry_at_top m e fs)) (LOG_FILE m)"
proof -
  have "\<forall>l \<in> set (filter (\<lambda>line. startswith line ''#'') (primary_lines m fs)). last l = NL"
    using primary_comments_terminated[OF ok wc ct] by (simp add: list_all_iff terminated_def)
  then show ?thesis
    unfolding comment_lines_terminated_def file_lines_after_insert[OF ok wc ct te]
    using nc by (auto simp: list_all_iff)
qed

subsection \<open>A run of calls\<close>

lemma insert_entry_at_top_log_py_eq:
  "path_exists fs (LOG_FILE m) \<Longrightarrow>
     insert_entry_at_top_log_py m e fs = insert_entry_at_top m e fs"
  by (simp add: insert_entry_at_top_log_py_def insert_entry_at_top_def)

lemma path_exists_created:
  "create_log_file_header m fs = Inr fs1 \<Longrightarrow> path_exists fs1 (LOG_FILE m)"
  by (auto simp: create_log_file_header_def open_write_def path_exists_def
      split: node.splits if_splits)

text \<open>
  \<^verbatim>\<open>log_execution\<close> of \<^verbatim>\<open>log.py\<close> does what that of \<^verbatim>\<open>src/logger.py\<close> does with the
  constants of \<^verbatim>\<open>log.py\<close>: what is proved of \<open>log_execution m\<close> holds of it.
\<close>

lemma log_execution_log_py_eq: "log_execution_log_py rt fs = log_execution log_py rt fs"
proof (cases "get_caller_info log_py (currentframe rt)")
  case (Inl e)
  then show ?thesis by (simp add: log_execution_log_py_def log_execution_def)
next
  case (Inr s)
  obtain file_name file_path where s: "s = (file_name, file_path)" by (cases s)
  let ?e = "format_entry (get_next_call_number log_py fs) (strftime_date (now rt))
      (strftime_time (now rt)) file_name file_path"
  show ?thesis
  proof (cases "path_exists fs (LOG_FILE log_py)")
    case True
    then show ?thesis using Inr s
      by (simp add: log_execution_log_py_def log_execution_def insert_entry_at_top_log_py_eq)
  next
    case False
    show ?thesis
    proof (cases "create_log_file_header log_py fs")
      case (Inl e)
      then show ?thesis using Inr s False
        by (simp add: log_execution_log_py_def log_execution_def insert_entry_at_top_def)
    next
      case created: (Inr fs1)
      have ex: "path_exists fs1 (LOG_FILE log_py)" by (rule path_exists_created[OF created])
      have "insert_entry_at_top log_py ?e fs = insert_entry_at_top log_py ?e fs1"
        using False created ex by (simp add: insert_entry_at_top_def)
      then show ?thesis using Inr s False created ex
        by (simp add: log_execution_log_py_def log_execution_def insert_entry_at_top_log_py_eq)
    qed
  qed
qed

lemma log_execution_Recorded:
  assumes "fst (log_execution m rt fs) = Recorded n name"
  shows "n = get_next_call_number m fs
    \<and> (\<exists>path. get_caller_info m (currentframe rt) = Inr (name, path)
         \<and> fst (insert_entry_at_top m
                 (format_entry n (strftime_date (now rt)) (strftime_time (now rt)) name path) fs)
             = None
         \<and> snd (log_execution m rt fs)
             = snd (insert_entry_at_top m
                 (format_entry n (strftime_date (now rt)) (strftime_time (now rt)) name path) fs))"
  using assms
  by (auto simp: log_execution_def Let_def split: sum.splits prod.splits option.splits)

lemma recorded_number_Some:
  "recorded_number out = Some n \<Longrightarrow> \<exists>name. out = Recorded n name"
  by (cases out) auto

lemma Max_insert_next:
  fixes S :: "int set"
  assumes "finite S"
  shows "Max (insert 0 (S \<union> {1 + Max (insert 0 S)})) = 1 + Max (insert 0 S)"
proof (rule Max_eqI)
  show "finite (insert 0 (S \<union> {1 + Max (insert 0 S)}))" using assms by simp
  show "1 + Max (insert 0 S) \<in> insert 0 (S \<union> {1 + Max (insert 0 S)})" by simp
  fix y assume "y \<in> insert 0 (S \<union> {1 + Max (insert 0 S)})"
  then have "y = 1 + Max (insert 0 S) \<or> y \<in> insert 0 S" by auto
  then show "y \<le> 1 + Max (insert 0 S)"
  proof
    assume "y = 1 + Max (insert 0 S)" then show ?thesis by simp
  next
    assume "y \<in> insert 0 S"
    then have "y \<le> Max (insert 0 S)" using assms by (intro Max_ge) auto
    then show ?thesis by simp
  qed
qed

lemma next_after_record:
  assumes wc: "well_configured m"
    and ct: "comment_lines_terminated fs (LOG_FILE m)"
    and sc: "safe_caller m rt"
    and rec: "fst (log_execution m rt fs) = Recorded n name"
  shows "get_next_call_number m (snd (log_execution m rt fs)) = n + 1
    \<and> comment_lines_terminated (snd (log_execution m rt fs)) (LOG_FILE m)"
proof -
  from log_execution_Recorded[OF rec] obtain path where
      n: "n = get_next_call_number m fs"
    and ci: "get_caller_info m (currentframe rt) = Inr (name, path)"
    and ok: "fst (insert_entry_at_top m
        (format_entry n (strftime_date (now rt)) (strftime_time (now rt)) name path) fs) = None"
    and fs': "snd (log_execution m rt fs) = snd (insert_entry_at_top m
        (format_entry n (strftime_date (now rt)) (strftime_time (now rt)) name path) fs)"
    by blast
  let ?e = "format_entry n (strftime_date (now rt)) (strftime_time (now rt)) name path"
  have safe: "NL \<notin> set name" "NL \<notin> set path"
    using sc ci by (simp_all add: safe_caller_def line_safe_def)
  have te: "terminated ?e"
    using field_no_tab[OF strftime_date_field] field_no_tab[OF strftime_time_field] safe
    by (intro format_entry_terminated) simp_all
  have "set (seen_numbers m (snd (log_execution m rt fs))) = set (seen_numbers m fs) \<union> {n}"
    unfolding fs' using seen_numbers_after_insert[OF ok wc ct te]
    by (simp add: format_entry_line_number)
  then have "get_next_call_number m (snd (log_execution m rt fs))
      = 1 + Max (insert 0 (set (seen_numbers m fs) \<union> {n}))"
    by (simp add: get_next_call_number_Max)
  also have "\<dots> = 1 + n"
    unfolding n get_next_call_number_Max using Max_insert_next[of "set (seen_numbers m fs)"]
    by simp
  finally have 1: "get_next_call_number m (snd (log_execution m rt fs)) = n + 1" by simp
  have 2: "comment_lines_terminated (snd (log_execution m rt fs)) (LOG_FILE m)"
    unfolding fs'
    by (rule comment_lines_terminated_after_insert[OF ok wc ct te format_entry_not_comment])
  show ?thesis using 1 2 by simp
qed

lemma log_executions_numbers:
  assumes wc: "well_configured m"
  shows "comment_lines_terminated fs (LOG_FILE m) \<Longrightarrow> list_all (safe_caller m) rts
    \<Longrightarrow> list_all (\<lambda>out. recorded_number out \<noteq> None) (fst (log_executions m rts fs))
    \<Longrightarrow> map recorded_number (fst (log_executions m rts fs))
        = map (\<lambda>i. Some (get_next_call_number m fs + int i)) [0..<length rts]"
proof (induction rts arbitrary: fs)
  case Nil
  then show ?case by simp
next
  case (Cons rt rts)
  let ?fs' = "snd (log_execution m rt fs)"
  have unfold: "fst (log_executions m (rt # rts) fs)
      = fst (log_execution m rt fs) # fst (log_executions m rts ?fs')"
    by (simp split: prod.splits)
  from Cons.prems(3)[unfolded unfold]
  have r0: "recorded_number (fst (log_execution m rt fs)) \<noteq> None"
    and rest: "list_all (\<lambda>out. recorded_number out \<noteq> None) (fst (log_executions m rts ?fs'))"
    by simp_all
  from r0 obtain n where "recorded_number (fst (log_execution m rt fs)) = Some n" by auto
  then obtain name where rec: "fst (log_execution m rt fs) = Recorded n name"
    by (auto dest: recorded_number_Some)
  have n: "n = get_next_call_number m fs" using log_execution_Recorded[OF rec] by simp
  from Cons.prems(2) have sc: "safe_caller m rt" and scs: "list_all (safe_caller m) rts"
    by simp_all
  from next_after_record[OF wc Cons.prems(1) sc rec]
  have nx: "get_next_call_number m ?fs' = n + 1"
    and ct': "comment_lines_terminated ?fs' (LOG_FILE m)" by simp_all
  have ih: "map recorded_number (fst (log_executions m rts ?fs'))
      = map (\<lambda>i. Some (n + 1 + int i)) [0..<length rts]"
    using Cons.IH[OF ct' scs rest] by (simp add: nx)
  have "map (\<lambda>i. Some (n + int i)) [0..<length (rt # rts)]
      = Some n # map (\<lambda>i. Some (n + 1 + int i)) [0..<length rts]"
    by (simp add: map_upt_Suc add.assoc del: upt_Suc)
  then show ?case unfolding unfold by (simp add: rec ih n[symmetric] del: upt_Suc log_executions.simps)
qed

subsection \<open>Consecutive call numbers\<close>

text \<open>
  \<^bold>\<open>C1\<close> (as amended). \<^verbatim>\<open>get_next_call_number\<close> returns one more than the largest of 0
  and the call numbers it finds in all known files, legacy files included. And in a
  run of calls of \<^verbatim>\<open>log_execution\<close>, one after the other, each of which reports its
  entry as recorded, the numbers reported are consecutive, starting from the number
  the first call computes. This needs the comment lines of the primary file to end
  with their line feeds when the run starts (the new line is written right after
  them) and callers whose name and path contain no line break. The theorem is stated
  for both modules by way of their common properties, \<open>well_configured\<close>.
\<close>

theorem sequence_numbers_consecutive:
  assumes "well_configured m"
    and "comment_lines_terminated fs (LOG_FILE m)"
    and "list_all (safe_caller m) rts"
    and "list_all (\<lambda>out. recorded_number out \<noteq> None) (fst (log_executions m rts fs))"
  shows "get_next_call_number m fs = 1 + Max (insert 0 (set (seen_numbers m fs)))
    \<and> map recorded_number (fst (log_executions m rts fs))
        = map (\<lambda>i. Some (get_next_call_number m fs + int i)) [0..<length rts]"
  using get_next_call_number_Max[of m fs] log_executions_numbers[OF assms] by simp

theorem sequence_numbers_consecutive_witness:
  "seen_numbers logger_py legacy_fs = [5]
   \<and> map recorded_number (fst (log_executions logger_py [example_run, example_run] legacy_fs))
     = [Some 6, Some 7]"
proof -
  have 1: "comment_lines_terminated legacy_fs (LOG_FILE logger_py)" by code_simp
  have 2: "list_all (safe_caller logger_py) [example_run, example_run]" by code_simp
  have 3: "list_all (\<lambda>out. recorded_number out \<noteq> None)
      (fst (log_executions logger_py [example_run, example_run] legacy_fs))" by code_simp
  have s: "seen_numbers logger_py legacy_fs = [5]" by code_simp
  have u: "[0..<length [example_run, example_run]] = [0, 1]" by (simp add: upt_rec)
  have "map recorded_number (fst (log_executions logger_py [example_run, example_run] legacy_fs))
      = map (\<lambda>i. Some (get_next_call_number logger_py legacy_fs + int i))
          [0..<length [example_run, example_run]]"
    using sequence_numbers_consecutive[OF well_configured_logger_py 1 2 3] by simp
  moreover have "get_next_call_number logger_py legacy_fs = 6"
    using sequence_numbers_consecutive[OF well_configured_logger_py 1 2 3] by (simp add: s)
  ultimately have "map recorded_number
      (fst (log_executions logger_py [example_run, example_run] legacy_fs)) = [Some 6, Some 7]"
    by (simp only: u list.map) simp
  then show ?thesis using s by (intro conjI)
qed

text \<open>
  The claim as stated has the result one more than the maximum found. The running
  maximum starts at 0: where the call numbers found are \<open>-3\<close> and \<open>-5\<close>, the result is
  1 and not \<open>-2\<close>.
\<close>

theorem next_call_number_counterexample:
  "seen_numbers logger_py below_zero_fs = [- 3, - 5]
   \<and> 1 + Max (set [- 3, - 5 :: int]) = - 2
   \<and> get_next_call_number logger_py below_zero_fs = 1"
proof -
  have 1: "seen_numbers logger_py below_zero_fs = [- 3, - 5]" by code_simp
  have 2: "1 + Max (set [- 3, - 5 :: int]) = - 2" by simp
  have 3: "get_next_call_number logger_py below_zero_fs = 1" by code_simp
  show ?thesis using 1 2 3 by (intro conjI)
qed

subsection \<open>The new entry in the merged view\<close>

lemma str_split_length_one: "TAB \<notin> set s \<Longrightarrow> length (str_split TAB s) = 1"
  by (simp add: str_split_no_sep)

lemma line_entry_SomeD:
  assumes "line_entry l = Some x"
  shows "strip l \<noteq> [] \<and> \<not> startswith l ''#'' \<and> 4 \<le> length (str_split TAB (strip l))
    \<and> int_py (hd (str_split TAB (strip l))) = Inr (number x)"
  using assms
  by (auto simp: line_entry_def Let_def hd_conv_nth split: if_splits sum.splits)

lemma aligned_numbers_agree:
  assumes al: "left_aligned l" and le: "line_entry l = Some x"
  shows "line_number l = Some (number x)"
proof -
  from line_entry_SomeD[OF le] have ne: "strip l \<noteq> []" and nc: "\<not> startswith l ''#''"
    and len: "4 \<le> length (str_split TAB (strip l))"
    and num: "int_py (hd (str_split TAB (strip l))) = Inr (number x)" by simp_all
  have hd: "\<not> isspace (hd l)" using al ne by (simp add: left_aligned_def)
  then obtain w where w: "l = strip l @ w" using strip_prefix by blast
  have tab: "TAB \<in> set (strip l)"
    using len str_split_length_one[of "strip l"] by (cases "TAB \<in> set (strip l)") auto
  then have ex: "\<exists>c \<in> set (strip l). \<not> c \<noteq> TAB" by blast
  have "takeWhile (\<lambda>c. c \<noteq> TAB) (strip l @ w) = takeWhile (\<lambda>c. c \<noteq> TAB) (strip l)"
    using ex by (simp add: takeWhile_append1)
  then have "hd (str_split TAB l) = hd (str_split TAB (strip l))"
    using w by (simp add: hd_str_split)
  then show ?thesis using ne nc num by (simp add: line_number_def)
qed

lemma parsed_numbers_seen:
  assumes al: "files_left_aligned m fs" and x: "x \<in> set (parsed_entries m fs)"
  shows "number x \<in> set (seen_numbers m fs)"
proof -
  from parsed_entries_elim[OF x] obtain p l where p: "p \<in> set (LOG_FILES m)"
    and l: "l \<in> set (file_lines fs p)" and le: "line_entry l = Some x" by blast
  have "left_aligned l" using al p l by (auto simp: files_left_aligned_def list_all_iff)
  then have "line_number l = Some (number x)" using le by (rule aligned_numbers_agree)
  then show ?thesis using p l by (auto simp: seen_numbers_def set_map_filter)
qed

text \<open>
  Where the two scans agree, the new entry is the first of the merged view. These
  conditions are enough for it (they are not all needed): every line of the known
  files that is not blank starts with a character that is no white space, every
  comment line of the primary file ends with its line feed, and the caller's name and
  path are such that the line format can hold them.
\<close>

lemma first_of_merged_view_after_record:
  assumes wc: "well_configured m"
    and ct: "comment_lines_terminated fs (LOG_FILE m)"
    and al: "files_left_aligned m fs"
    and pc: "plain_caller m rt"
    and rec: "fst (log_execution m rt fs) = Recorded n name"
  shows "read_log m (snd (log_execution m rt fs)) \<noteq> []
    \<and> number (hd (read_log m (snd (log_execution m rt fs)))) = n
    \<and> filename (hd (read_log m (snd (log_execution m rt fs)))) = name"
proof -
  let ?fs' = "snd (log_execution m rt fs)"
  from log_execution_Recorded[OF rec] obtain path where
      n: "n = get_next_call_number m fs"
    and ci: "get_caller_info m (currentframe rt) = Inr (name, path)"
    and ok: "fst (insert_entry_at_top m
        (format_entry n (strftime_date (now rt)) (strftime_time (now rt)) name path) fs) = None"
    and fs': "?fs' = snd (insert_entry_at_top m
        (format_entry n (strftime_date (now rt)) (strftime_time (now rt)) name path) fs)"
    by blast
  let ?d = "strftime_date (now rt)" and ?t = "strftime_time (now rt)"
  let ?e = "format_entry n ?d ?t name path"
  let ?x = "\<lparr>number = n, date = ?d, time = ?t, filename = name,
      filepath = hd (str_split TAB path)\<rparr>"
  have ps: "plain_source (name, path)" using pc ci by (simp add: plain_caller_def)
  then have safe: "NL \<notin> set name" "NL \<notin> set path" "TAB \<notin> set name"
      "path \<noteq> []" "\<not> isspace (last path)"
    by (simp_all add: plain_source_def line_safe_def)
  note fd = field_no_tab[OF strftime_date_field, of "now rt"]
  note ft = field_no_tab[OF strftime_time_field, of "now rt"]
  have te: "terminated ?e"
    using fd ft safe by (intro format_entry_terminated) simp_all
  have le: "line_entry ?e = Some ?x"
    using fd ft safe by (intro format_entry_line_entry) simp_all
  have parsed: "set (parsed_entries m ?fs') = set (parsed_entries m fs) \<union> {?x}"
    unfolding fs' using parsed_entries_after_insert[OF ok wc ct te] by (simp add: le)
  have old: "\<And>y. y \<in> set (parsed_entries m fs) \<Longrightarrow> number y < n"
    unfolding n by (rule seen_below_next) (rule parsed_numbers_seen[OF al])
  have "key_of ?x \<in> key_of ` set (read_log m ?fs')"
    unfolding read_log_keys parsed by simp
  then obtain y where y: "y \<in> set (read_log m ?fs')" and ky: "key_of y = key_of ?x" by auto
  then have ny: "number y = n" by (simp add: key_of_def)
  have ne: "read_log m ?fs' \<noteq> []" using y by auto
  let ?h = "hd (read_log m ?fs')"
  have yc: "y \<in> set (collect_entries m ?fs')" using y by (simp add: read_log_eq)
  have "number y \<le> number ?h"
    unfolding read_log_eq by (rule sort_reverse_hd_max[OF yc])
  then have ge: "n \<le> number ?h" by (simp add: ny)
  have "?h \<in> set (read_log m ?fs')" using ne by simp
  then have "?h \<in> set (parsed_entries m fs) \<union> {?x}"
    using read_log_subset[of m ?fs'] parsed by auto
  then have "?h = ?x" using old[of ?h] ge by auto
  then have "number ?h = n \<and> filename ?h = name" by simp
  then show ?thesis using ne by simp
qed

lemma first_of_merged_view_example:
  "fst (log_execution logger_py example_run example_fs) = Recorded 8 ''main.py''
   \<and> number (hd (read_log logger_py (snd (log_execution logger_py example_run example_fs)))) = 8
   \<and> filename (hd (read_log logger_py (snd (log_execution logger_py example_run example_fs))))
      = ''main.py''"
proof -
  have 1: "comment_lines_terminated example_fs (LOG_FILE logger_py)" by code_simp
  have 2: "files_left_aligned logger_py example_fs" by code_simp
  have 3: "plain_caller logger_py example_run" by code_simp
  have 4: "fst (log_execution logger_py example_run example_fs) = Recorded 8 ''main.py''"
    by code_simp
  note t = first_of_merged_view_after_record[OF well_configured_logger_py 1 2 3 4]
  show ?thesis using 4 t by (intro conjI) simp_all
qed

subsection \<open>The first element of the merged view\<close>

text \<open>
  \<^bold>\<open>C3.\<close> After a call of \<^verbatim>\<open>log_execution\<close> that reports its entry as recorded, the
  merged view should start with that entry: its number is meant to be one more than
  every call number in the known files. Numbering and reading do not agree on what
  the files hold. The legacy line below starts with a tab: its first field is empty
  for \<^verbatim>\<open>get_next_call_number\<close>, which skips the line and hands out number 1, while
  \<^verbatim>\<open>read_log\<close> strips the line and reads call number 9 from it. The call reports entry 1
  for \<^verbatim>\<open>main.py\<close>, and the merged view then starts with entry 9 of \<^verbatim>\<open>old.py\<close>.
\<close>

theorem new_entry_behind_tab_led_line:
  "fst (log_execution logger_py example_run shifted_fs) = Recorded 1 ''main.py''
   \<and> map number (read_log logger_py (snd (log_execution logger_py example_run shifted_fs)))
     = [9, 1]
   \<and> map filename (read_log logger_py (snd (log_execution logger_py example_run shifted_fs)))
     = [''old.py'', ''main.py'']"
  by code_simp

subsection \<open>The header stays on top\<close>

text \<open>
  What \<^verbatim>\<open>insert_entry_at_top\<close> is meant to do, and does when every comment line of the
  primary file ends with its line feed and the caller's name and path contain no line
  break: after a call that reports its entry as recorded, the lines of the primary
  file are its former comment lines in their order, then the new line, which carries
  the call number, then its former other lines in their order. A primary file that
  was missing is created first, and its former lines are then those of the header.
\<close>

theorem insert_keeps_header_on_top:
  assumes "well_configured m"
    and "comment_lines_terminated fs (LOG_FILE m)"
    and "safe_caller m rt"
    and "fst (log_execution m rt fs) = Recorded n name"
  shows "\<exists>new_entry.
      file_lines (snd (log_execution m rt fs)) (LOG_FILE m)
        = filter (\<lambda>line. startswith line ''#'') (primary_lines m fs) @ new_entry
            # filter (\<lambda>line. \<not> startswith line ''#'') (primary_lines m fs)
      \<and> line_number new_entry = Some n
      \<and> (if path_exists fs (LOG_FILE m)
          then primary_lines m fs = file_lines fs (LOG_FILE m)
          else primary_lines m fs = HEADER m)"
proof -
  from log_execution_Recorded[OF assms(4)] obtain path where
      ci: "get_caller_info m (currentframe rt) = Inr (name, path)"
    and ok: "fst (insert_entry_at_top m
        (format_entry n (strftime_date (now rt)) (strftime_time (now rt)) name path) fs) = None"
    and fs': "snd (log_execution m rt fs) = snd (insert_entry_at_top m
        (format_entry n (strftime_date (now rt)) (strftime_time (now rt)) name path) fs)"
    by blast
  let ?e = "format_entry n (strftime_date (now rt)) (strftime_time (now rt)) name path"
  have safe: "NL \<notin> set name" "NL \<notin> set path"
    using assms(3) ci by (simp_all add: safe_caller_def line_safe_def)
  have te: "terminated ?e"
    using field_no_tab[OF strftime_date_field] field_no_tab[OF strftime_time_field] safe
    by (intro format_entry_terminated) simp_all
  have 1: "file_lines (snd (log_execution m rt fs)) (LOG_FILE m)
        = filter (\<lambda>line. startswith line ''#'') (primary_lines m fs) @ ?e
            # filter (\<lambda>line. \<not> startswith line ''#'') (primary_lines m fs)"
    unfolding fs' by (rule file_lines_after_insert[OF ok assms(1,2) te])
  have 2: "line_number ?e = Some n" by (rule format_entry_line_number)
  have 3: "if path_exists fs (LOG_FILE m)
          then primary_lines m fs = file_lines fs (LOG_FILE m)
          else primary_lines m fs = HEADER m"
  proof (cases "path_exists fs (LOG_FILE m)")
    case True
    then show ?thesis using primary_lines_file_lines[OF ok] by simp
  next
    case False
    then show ?thesis using readlines_HEADER[OF assms(1)]
      by (auto simp: primary_lines_def path_exists_def split: node.splits)
  qed
  show ?thesis using 1 2 3 by blast
qed

theorem insert_keeps_header_on_top_witness:
  "fst (log_execution logger_py example_run legacy_fs) = Recorded 6 ''main.py''
   \<and> file_lines (snd (log_execution logger_py example_run legacy_fs)) ''logs/program_log.txt''
     = HEADER logger_py
       @ [row [''6'', ''2025-10-09'', ''08:05:03'', ''main.py'', ''/p/main.py'']]"
proof -
  have 1: "comment_lines_terminated legacy_fs (LOG_FILE logger_py)" by code_simp
  have 2: "safe_caller logger_py example_run" by code_simp
  have 3: "fst (log_execution logger_py example_run legacy_fs) = Recorded 6 ''main.py''"
    by code_simp
  have 4: "file_lines (snd (log_execution logger_py example_run legacy_fs)) ''logs/program_log.txt''
     = HEADER logger_py
       @ [row [''6'', ''2025-10-09'', ''08:05:03'', ''main.py'', ''/p/main.py'']]"
    by code_simp
  from insert_keeps_header_on_top[OF well_configured_logger_py 1 2 3]
  have "\<exists>new_entry. line_number new_entry = Some 6" by blast
  then show ?thesis using 3 4 by (intro conjI)
qed

text \<open>
  \<^bold>\<open>C6.\<close> After a successful call the primary file should consist of its comment
  lines, the new entry line and its former data lines. The code writes the three
  pieces one after the other without looking at the end of the last comment line:
  on a primary file whose text is \<^verbatim>\<open># log\<close> without a line feed, the call reports entry
  1 as recorded, and the file is then the single comment line \<^verbatim>\<open># log1...\<close>. It has
  no entry line; the merged view is empty and the next call number is 1 again.
\<close>

theorem entry_glued_to_open_comment:
  "fst (log_execution logger_py example_run open_header_fs) = Recorded 1 ''main.py''
   \<and> file_lines (snd (log_execution logger_py example_run open_header_fs))
        ''logs/program_log.txt''
     = [''# log'' @ row [''1'', ''2025-10-09'', ''08:05:03'', ''main.py'', ''/p/main.py'']]
   \<and> read_log logger_py (snd (log_execution logger_py example_run open_header_fs)) = []
   \<and> get_next_call_number logger_py (snd (log_execution logger_py example_run open_header_fs))
     = 1"
  by code_simp

end
